theory Spec2Isabelle
  imports Main "HOL-Library.Word"
begin

section \<open>The explicit-list allocator of el_malloc.c\<close>

text \<open>
  The allocator manages one region of raw memory. Block headers and footers live inside
  that region and are reached by address arithmetic; the list sentinels live inside the
  global control structure. The model keeps addresses and sizes as 64-bit machine words
  (\<open>size_t\<close> and pointers cast to \<open>size_t\<close> by \<open>PTR_PLUS_BYTES\<close> and
  \<open>PTR_MINUS_BYTES\<close>), so every sum and difference wraps as in the C code.

  Memory is an explicit store with one cell per field: the four header fields are keyed
  by the address of the header, the footer's size by the address of the footer. A header
  cell and a footer cell are independent cells even where their byte ranges would
  overlap; dereferencing an address outside the region (or \<open>NULL\<close>) is undefined in
  C and is an ordinary cell of the store here.
\<close>

type_synonym addr = "64 word"
type_synonym size_t = "64 word"
type_synonym state_t = "8 word"

abbreviation NULL :: addr where
  "NULL \<equiv> 0"

subsection \<open>Constants of el_malloc.h\<close>

text \<open>
  Modelled from the spec: el_malloc.h is not among the sources. The header and footer
  sizes are the ones the comments of el_malloc.c show (overhead per node: 40; a block of
  size 128 with its head at 0x600000000000 has its foot at 0x6000000000a0, so the header
  takes 32 bytes and the footer 8). The states \<open>a\<close> and \<open>u\<close> are the characters
  the same comments print; the two sentinel states are two further characters.
\<close>

definition sizeof_el_blockhead_t :: size_t where
  "sizeof_el_blockhead_t = 32"

definition sizeof_el_blockfoot_t :: size_t where
  "sizeof_el_blockfoot_t = 8"

definition EL_BLOCK_OVERHEAD :: size_t where
  "EL_BLOCK_OVERHEAD = sizeof_el_blockhead_t + sizeof_el_blockfoot_t"

definition EL_AVAILABLE :: state_t where
  "EL_AVAILABLE = 97"

definition EL_USED :: state_t where
  "EL_USED = 117"

definition EL_BEGIN_BLOCK :: state_t where
  "EL_BEGIN_BLOCK = 66"

definition EL_END_BLOCK :: state_t where
  "EL_END_BLOCK = 69"

subsection \<open>The control structure and the store\<close>

text \<open>
  \<open>el_blocklist_t\<close>: \<open>beg_actual\<close> and \<open>end_actual\<close> are the addresses of the two
  sentinel structs embedded in the list (their fields are cells of the store at these
  addresses); \<open>beg\<close> and \<open>end_p\<close> are the pointer fields \<open>beg\<close> and \<open>end\<close>.
\<close>

record el_blocklist_t =
  beg_actual :: addr
  end_actual :: addr
  beg :: addr
  end_p :: addr
  length_l :: size_t
  bytes :: size_t

record el_ctl_t =
  heap_start :: addr
  heap_end :: addr
  heap_bytes :: size_t
  avail_actual :: el_blocklist_t
  used_actual :: el_blocklist_t
  head_size :: "addr \<Rightarrow> size_t"
  head_state :: "addr \<Rightarrow> state_t"
  head_next :: "addr \<Rightarrow> addr"
  head_prev :: "addr \<Rightarrow> addr"
  foot_size :: "addr \<Rightarrow> size_t"

text \<open>\<open>el_ctl.avail\<close> and \<open>el_ctl.used\<close> point to the two lists.\<close>

datatype list_ptr = avail | used

definition the_list :: "list_ptr \<Rightarrow> el_ctl_t \<Rightarrow> el_blocklist_t" where
  "the_list l s = (case l of avail \<Rightarrow> avail_actual s | used \<Rightarrow> used_actual s)"

definition list_update_l ::
  "list_ptr \<Rightarrow> (el_blocklist_t \<Rightarrow> el_blocklist_t) \<Rightarrow> el_ctl_t \<Rightarrow> el_ctl_t" where
  "list_update_l l f s =
     (case l of avail \<Rightarrow> s\<lparr>avail_actual := f (avail_actual s)\<rparr>
              | used \<Rightarrow> s\<lparr>used_actual := f (used_actual s)\<rparr>)"

text \<open>Writes through a pointer: one cell of the store changes.\<close>

definition set_size :: "addr \<Rightarrow> size_t \<Rightarrow> el_ctl_t \<Rightarrow> el_ctl_t" where
  "set_size p v s = s\<lparr>head_size := (head_size s)(p := v)\<rparr>"

definition set_state :: "addr \<Rightarrow> state_t \<Rightarrow> el_ctl_t \<Rightarrow> el_ctl_t" where
  "set_state p v s = s\<lparr>head_state := (head_state s)(p := v)\<rparr>"

definition set_next :: "addr \<Rightarrow> addr \<Rightarrow> el_ctl_t \<Rightarrow> el_ctl_t" where
  "set_next p v s = s\<lparr>head_next := (head_next s)(p := v)\<rparr>"

definition set_prev :: "addr \<Rightarrow> addr \<Rightarrow> el_ctl_t \<Rightarrow> el_ctl_t" where
  "set_prev p v s = s\<lparr>head_prev := (head_prev s)(p := v)\<rparr>"

definition set_foot_size :: "addr \<Rightarrow> size_t \<Rightarrow> el_ctl_t \<Rightarrow> el_ctl_t" where
  "set_foot_size p v s = s\<lparr>foot_size := (foot_size s)(p := v)\<rparr>"

subsection \<open>Pointer arithmetic between headers and footers\<close>

definition el_get_footer :: "el_ctl_t \<Rightarrow> addr \<Rightarrow> addr" where
  "el_get_footer s head =
     (let sz = head_size s head in head + (sizeof_el_blockhead_t + sz))"

definition el_get_header :: "el_ctl_t \<Rightarrow> addr \<Rightarrow> addr" where
  "el_get_header s foot =
     (let sz = foot_size s foot in foot - (sizeof_el_blockhead_t + sz))"

definition el_block_above :: "el_ctl_t \<Rightarrow> addr \<Rightarrow> addr" where
  "el_block_above s block =
     (let higher = block + (head_size s block + EL_BLOCK_OVERHEAD)
      in if higher \<ge> heap_end s then NULL else higher)"

definition el_block_below :: "el_ctl_t \<Rightarrow> addr \<Rightarrow> addr" where
  "el_block_below s block =
     (if block \<noteq> heap_start s
      then (let previous = block - sizeof_el_blockfoot_t in el_get_header s previous)
      else NULL)"

subsection \<open>Block list operations\<close>

text \<open>
  \<open>EL_UNINITIALIZED\<close> is a macro of the absent header; \<open>el_init_blocklist\<close> takes its
  value as a parameter.
\<close>

definition el_init_blocklist :: "size_t \<Rightarrow> list_ptr \<Rightarrow> el_ctl_t \<Rightarrow> el_ctl_t" where
  "el_init_blocklist EL_UNINITIALIZED l s =
     (let s1 = list_update_l l (\<lambda>L. L\<lparr>beg := beg_actual L\<rparr>) s;
          s2 = set_state (beg (the_list l s1)) EL_BEGIN_BLOCK s1;
          s3 = set_size (beg (the_list l s2)) EL_UNINITIALIZED s2;
          s4 = list_update_l l (\<lambda>L. L\<lparr>end_p := end_actual L\<rparr>) s3;
          s5 = set_state (end_p (the_list l s4)) EL_END_BLOCK s4;
          s6 = set_size (end_p (the_list l s5)) EL_UNINITIALIZED s5;
          s7 = set_next (beg (the_list l s6)) (end_p (the_list l s6)) s6;
          s8 = set_prev (beg (the_list l s7)) NULL s7;
          s9 = set_next (end_p (the_list l s8)) NULL s8;
          s10 = set_prev (end_p (the_list l s9)) (beg (the_list l s9)) s9;
          s11 = list_update_l l (\<lambda>L. L\<lparr>length_l := 0\<rparr>) s10
      in list_update_l l (\<lambda>L. L\<lparr>bytes := 0\<rparr>) s11)"

definition el_add_block_front :: "list_ptr \<Rightarrow> addr \<Rightarrow> el_ctl_t \<Rightarrow> el_ctl_t" where
  "el_add_block_front l block s =
     (let s1 = set_next block (head_next s (beg (the_list l s))) s;
          s2 = set_prev block (beg (the_list l s1)) s1;
          s3 = set_prev (head_next s2 block) block s2;
          s4 = set_next (head_prev s3 block) block s3;
          s5 = list_update_l l (\<lambda>L. L\<lparr>length_l := length_l L + 1\<rparr>) s4
      in list_update_l l
           (\<lambda>L. L\<lparr>bytes := bytes L + (head_size s5 block + EL_BLOCK_OVERHEAD)\<rparr>) s5)"

definition el_remove_block :: "list_ptr \<Rightarrow> addr \<Rightarrow> el_ctl_t \<Rightarrow> el_ctl_t" where
  "el_remove_block l block s =
     (let s1 = set_next (head_prev s block) (head_next s block) s;
          s2 = set_prev (head_next s1 block) (head_prev s1 block) s1;
          s3 = list_update_l l (\<lambda>L. L\<lparr>length_l := length_l L - 1\<rparr>) s2
      in list_update_l l
           (\<lambda>L. L\<lparr>bytes := bytes L - (head_size s3 block + EL_BLOCK_OVERHEAD)\<rparr>) s3)"

subsection \<open>Initialisation\<close>

text \<open>
  \<open>el_init\<close> takes the macros \<open>EL_HEAP_START_ADDRESS\<close>, \<open>EL_HEAP_INITIAL_SIZE\<close> and
  \<open>EL_UNINITIALIZED\<close> of the absent header and the address \<open>mmap\<close> returned as
  parameters. The failed \<open>assert\<close> and the \<open>return -1\<close> are the two errors.
\<close>

datatype init_error = Assertion_failed | Heap_too_small

definition el_init ::
  "addr \<Rightarrow> size_t \<Rightarrow> size_t \<Rightarrow> addr \<Rightarrow> el_ctl_t \<Rightarrow> init_error + el_ctl_t" where
  "el_init EL_HEAP_START_ADDRESS EL_HEAP_INITIAL_SIZE EL_UNINITIALIZED heap s =
     (if heap \<noteq> EL_HEAP_START_ADDRESS then Inl Assertion_failed
      else
        let s1 = s\<lparr>heap_bytes := EL_HEAP_INITIAL_SIZE\<rparr>;
            s2 = s1\<lparr>heap_start := heap\<rparr>;
            s3 = s2\<lparr>heap_end := heap + heap_bytes s2\<rparr>
        in if heap_bytes s3 < EL_BLOCK_OVERHEAD then Inl Heap_too_small
           else
             let s4 = el_init_blocklist EL_UNINITIALIZED avail s3;
                 s5 = el_init_blocklist EL_UNINITIALIZED used s4;
                 sz = heap_bytes s5 - EL_BLOCK_OVERHEAD;
                 ablock = heap_start s5;
                 s6 = set_size ablock sz s5;
                 s7 = set_state ablock EL_AVAILABLE s6;
                 afoot = el_get_footer s7 ablock;
                 s8 = set_foot_size afoot sz s7
             in Inr (el_add_block_front avail ablock s8))"

subsection \<open>Allocation\<close>

text \<open>
  The search loop follows \<open>next\<close> pointers until it meets the end sentinel; on a store
  whose pointers never reach it the loop does not return, which is the value \<open>None\<close>.
\<close>

partial_function (option) find_avail_loop :: "el_ctl_t \<Rightarrow> size_t \<Rightarrow> addr \<Rightarrow> addr option" where
  "find_avail_loop s sz current =
     (if current \<noteq> end_p (the_list avail s)
      then (if head_size s current \<ge> sz + EL_BLOCK_OVERHEAD then Some current
            else find_avail_loop s sz (head_next s current))
      else Some NULL)"

declare find_avail_loop.simps [code]

definition el_find_first_avail :: "size_t \<Rightarrow> el_ctl_t \<Rightarrow> addr option" where
  "el_find_first_avail sz s = find_avail_loop s sz (head_next s (beg (the_list avail s)))"

definition el_split_block :: "addr \<Rightarrow> size_t \<Rightarrow> el_ctl_t \<Rightarrow> addr \<times> el_ctl_t" where
  "el_split_block block new_size s =
     (let original = head_size s block
      in if head_size s block < new_size + EL_BLOCK_OVERHEAD then (NULL, s)
         else
           let s1 = set_size block new_size s;
               foot = el_get_footer s1 block;
               s2 = set_foot_size foot new_size s1;
               new_block = el_block_above s2 block;
               s3 = set_size new_block (original - new_size - EL_BLOCK_OVERHEAD) s2;
               new_foot = el_get_footer s3 new_block;
               s4 = set_foot_size new_foot (original - new_size - EL_BLOCK_OVERHEAD) s3
           in (new_block, s4))"

definition el_malloc :: "size_t \<Rightarrow> el_ctl_t \<Rightarrow> (addr \<times> el_ctl_t) option" where
  "el_malloc nbytes s =
     (case el_find_first_avail nbytes s of
        None \<Rightarrow> None
      | Some block \<Rightarrow>
          if block = NULL then Some (NULL, s)
          else
            let s1 = el_remove_block avail block s;
                (allocated_block, s2) = el_split_block block nbytes s1
            in if allocated_block \<noteq> NULL
               then
                 let s3 = set_state block EL_USED s2;
                     s4 = el_add_block_front used block s3;
                     s5 = set_state allocated_block EL_AVAILABLE s4;
                     s6 = el_add_block_front avail allocated_block s5
                 in Some (block + sizeof_el_blockhead_t, s6)
               else Some (NULL, el_add_block_front avail block s2))"

subsection \<open>De-allocation\<close>

definition el_merge_block_with_above :: "addr \<Rightarrow> el_ctl_t \<Rightarrow> el_ctl_t" where
  "el_merge_block_with_above lower s =
     (if lower = NULL \<or> head_state s lower \<noteq> EL_AVAILABLE then s
      else
        let higher = el_block_above s lower
        in if higher = NULL \<or> head_state s higher \<noteq> EL_AVAILABLE then s
           else
             let s1 = el_remove_block avail lower s;
                 s2 = el_remove_block avail higher s1;
                 new_size = head_size s2 lower + head_size s2 higher + EL_BLOCK_OVERHEAD;
                 s3 = set_size lower new_size s2;
                 foot = el_get_footer s3 higher;
                 s4 = set_foot_size foot new_size s3
             in el_add_block_front avail lower s4)"

definition el_free :: "addr \<Rightarrow> el_ctl_t \<Rightarrow> el_ctl_t" where
  "el_free ptr s =
     (let block = ptr - sizeof_el_blockhead_t;
          s1 = el_remove_block used block s;
          s2 = set_state block EL_AVAILABLE s1;
          s3 = el_add_block_front avail block s2;
          s4 = el_merge_block_with_above block s3
      in el_merge_block_with_above (el_block_below s4 block) s4)"

subsection \<open>Abstraction: the blocks of a list, the extent of a block\<close>

text \<open>
  \<open>chain nx pv p bs q\<close>: following \<open>next\<close> from \<open>p\<close> visits the nodes \<open>bs\<close> in
  order and then \<open>q\<close>, and every \<open>prev\<close> pointer on the way leads back one node.
  \<open>is_list l s bs\<close>: the list \<open>l\<close> holds exactly the blocks \<open>bs\<close>, front to back,
  between its two sentinels, and no node occurs twice.
\<close>

primrec chain :: "(addr \<Rightarrow> addr) \<Rightarrow> (addr \<Rightarrow> addr) \<Rightarrow> addr \<Rightarrow> addr list \<Rightarrow> addr \<Rightarrow> bool" where
  "chain nx pv p [] q = (nx p = q \<and> pv q = p)"
| "chain nx pv p (b # bs) q = (nx p = b \<and> pv b = p \<and> chain nx pv b bs q)"

definition is_list :: "list_ptr \<Rightarrow> el_ctl_t \<Rightarrow> addr list \<Rightarrow> bool" where
  "is_list l s bs =
     (chain (head_next s) (head_prev s) (beg (the_list l s)) bs (end_p (the_list l s)) \<and>
      distinct (beg (the_list l s) # bs @ [end_p (the_list l s)]))"

text \<open>
  The region invariant of a block: header through footer lie inside
  \<open>[heap_start, heap_end)\<close>, computed without wrap-around.
\<close>

definition block_in_heap :: "el_ctl_t \<Rightarrow> addr \<Rightarrow> bool" where
  "block_in_heap s b =
     (b \<noteq> NULL \<and> unat (heap_start s) \<le> unat b \<and>
      unat b + unat (head_size s b) + unat EL_BLOCK_OVERHEAD \<le> unat (heap_end s))"

text \<open>
  The four sentinel structs and the start of the region are five different addresses:
  the control structure is a global of the program, the region comes from \<open>mmap\<close>.
\<close>

definition sentinels_apart :: "el_ctl_t \<Rightarrow> addr \<Rightarrow> bool" where
  "sentinels_apart s heap =
     distinct [beg_actual (avail_actual s), end_actual (avail_actual s),
               beg_actual (used_actual s), end_actual (used_actual s), heap]"

text \<open>
  \<open>nodes l s bs\<close>: the sentinels and the blocks of a list. \<open>two_lists s as us\<close>: the
  available list holds the blocks \<open>as\<close>, the used list the blocks \<open>us\<close>, and the two
  lists share no node.
\<close>

definition nodes :: "list_ptr \<Rightarrow> el_ctl_t \<Rightarrow> addr list \<Rightarrow> addr list" where
  "nodes l s bs = beg (the_list l s) # bs @ [end_p (the_list l s)]"

definition two_lists :: "el_ctl_t \<Rightarrow> addr list \<Rightarrow> addr list \<Rightarrow> bool" where
  "two_lists s as us =
     (is_list avail s as \<and> is_list used s us \<and>
      set (nodes avail s as) \<inter> set (nodes used s us) = {})"

subsection \<open>The heap invariant\<close>

text \<open>
  What the allocator maintains between calls, stated over three lists of block
  addresses: \<open>as\<close>, the members of the available list, \<open>us\<close>, the members of the used
  list, and \<open>bl\<close>, all blocks of the region in address order.

  \<open>tiles sz a bl e\<close>: the blocks \<open>bl\<close> lie back to back from the address \<open>a\<close> to the
  address \<open>e\<close>, each one taking its payload size \<open>sz b\<close> and the overhead. Addresses are
  natural numbers here, so that no sum wraps.
\<close>

primrec tiles :: "(addr \<Rightarrow> size_t) \<Rightarrow> nat \<Rightarrow> addr list \<Rightarrow> nat \<Rightarrow> bool" where
  "tiles sz a [] e = (a = e)"
| "tiles sz a (b # bs) e = (unat b = a \<and> tiles sz (a + unat (sz b) + unat EL_BLOCK_OVERHEAD) bs e)"

text \<open>
  The four sentinels are globals of the program; they lie outside the region.
\<close>

definition outside_region :: "el_ctl_t \<Rightarrow> addr \<Rightarrow> bool" where
  "outside_region s p = (unat p < unat (heap_start s) \<or> unat (heap_end s) \<le> unat p)"

definition sentinels_outside :: "el_ctl_t \<Rightarrow> bool" where
  "sentinels_outside s =
     list_all (outside_region s)
       [beg (the_list avail s), end_p (the_list avail s),
        beg (the_list used s), end_p (the_list used s)]"

text \<open>
  \<open>tiled s bl\<close>: the blocks \<open>bl\<close> tile the region from \<open>heap_start\<close> to \<open>heap_end\<close>, and
  the footer of each records the size of its header.
  \<open>marked s as us\<close>: the state field of a block says in which list it is.
  \<open>counted l s bs\<close>: the length and bytes fields of the list \<open>l\<close> count the blocks \<open>bs\<close>,
  in \<open>size_t\<close> arithmetic as the code does.
\<close>

definition tiled :: "el_ctl_t \<Rightarrow> addr list \<Rightarrow> bool" where
  "tiled s bl =
     (0 < unat (heap_start s) \<and>
      tiles (head_size s) (unat (heap_start s)) bl (unat (heap_end s)) \<and>
      list_all (\<lambda>b. foot_size s (el_get_footer s b) = head_size s b) bl)"

definition marked :: "el_ctl_t \<Rightarrow> addr list \<Rightarrow> addr list \<Rightarrow> bool" where
  "marked s as us =
     (list_all (\<lambda>b. head_state s b = EL_AVAILABLE) as \<and>
      list_all (\<lambda>b. head_state s b = EL_USED) us)"

definition counted :: "list_ptr \<Rightarrow> el_ctl_t \<Rightarrow> addr list \<Rightarrow> bool" where
  "counted l s bs =
     (length_l (the_list l s) = of_nat (length bs) \<and>
      bytes (the_list l s) = sum_list (map (\<lambda>b. head_size s b + EL_BLOCK_OVERHEAD) bs))"

definition heap_struct :: "el_ctl_t \<Rightarrow> addr list \<Rightarrow> addr list \<Rightarrow> addr list \<Rightarrow> bool" where
  "heap_struct s as us bl =
     (two_lists s as us \<and> sentinels_outside s \<and> tiled s bl \<and> set bl = set as \<union> set us \<and>
      marked s as us \<and> counted avail s as \<and> counted used s us)"

text \<open>
  \<open>no_adjacent_avail st bl\<close>: no two neighbours in \<open>bl\<close> are both available.
\<close>

primrec no_adjacent_avail :: "(addr \<Rightarrow> state_t) \<Rightarrow> addr list \<Rightarrow> bool" where
  "no_adjacent_avail st [] = True"
| "no_adjacent_avail st (b # bs) =
     ((case bs of [] \<Rightarrow> True | c # _ \<Rightarrow> \<not> (st b = EL_AVAILABLE \<and> st c = EL_AVAILABLE)) \<and>
      no_adjacent_avail st bs)"

definition heap_inv :: "el_ctl_t \<Rightarrow> addr list \<Rightarrow> addr list \<Rightarrow> addr list \<Rightarrow> bool" where
  "heap_inv s as us bl = (heap_struct s as us bl \<and> no_adjacent_avail (head_state s) bl)"

text \<open>
  \<open>init_ok s0 heap sz\<close>: what \<open>el_init\<close> expects of its surroundings. The sentinels
  are distinct globals, the region that \<open>mmap\<close> returned does not start at address 0,
  does not reach the end of the address space and does not cover a sentinel.
\<close>

definition init_ok :: "el_ctl_t \<Rightarrow> addr \<Rightarrow> size_t \<Rightarrow> bool" where
  "init_ok s0 heap sz =
     (sentinels_apart s0 heap \<and> 0 < unat heap \<and> unat heap + unat sz < 2 ^ 64 \<and>
      list_all (\<lambda>p. unat p < unat heap \<or> unat heap + unat sz \<le> unat p)
        [beg_actual (avail_actual s0), end_actual (avail_actual s0),
         beg_actual (used_actual s0), end_actual (used_actual s0)])"

text \<open>
  \<open>reach_nowrap s P\<close>: the state \<open>s\<close> is reached from a successful \<open>el_init\<close> by calls of
  \<open>el_malloc\<close> whose request does not wrap when the overhead is added, and calls of
  \<open>el_free\<close> on pointers that \<open>el_malloc\<close> returned and that were not released since;
  \<open>P\<close> is the set of these pointers.
\<close>

inductive reach_nowrap :: "el_ctl_t \<Rightarrow> addr set \<Rightarrow> bool" where
  init: "el_init start sz u heap s0 = Inr s \<Longrightarrow> init_ok s0 heap sz \<Longrightarrow> reach_nowrap s {}"
| malloc: "reach_nowrap s P \<Longrightarrow> unat nbytes + unat EL_BLOCK_OVERHEAD < 2 ^ 64 \<Longrightarrow>
     el_malloc nbytes s = Some (p, s') \<Longrightarrow> reach_nowrap s' (if p = NULL then P else insert p P)"
| free: "reach_nowrap s P \<Longrightarrow> p \<in> P \<Longrightarrow> reach_nowrap (el_free p s) (P - {p})"

subsection \<open>Example states\<close>

text \<open>
  An example run, each state written out. \<open>boot\<close> is the program before \<open>el_init\<close>: the
  control structure is zero and the region is fresh from \<open>mmap\<close>; the addresses of the
  four sentinel structs are an example placement of the global \<open>el_ctl\<close>. \<open>fresh\<close> is
  the heap after \<open>el_init\<close> with a 4096-byte region at 0x600000000000 (the numbers of
  the comments in el_malloc.c). The lemmas of the section on the example states prove that
  each state is the result of the call that its description names.

  \<^item> \<open>exact_fit\<close>: \<open>fresh\<close> after \<open>el_malloc(4016)\<close>;
  \<^item> \<open>st1\<close>: \<open>fresh\<close> after \<open>el_malloc(8)\<close>;
  \<^item> \<open>st2\<close>: \<open>st1\<close> after \<open>el_malloc(2^64 - 40)\<close>;
  \<^item> \<open>st3\<close>: \<open>st2\<close> after \<open>el_malloc(16)\<close>;
  \<^item> \<open>st4\<close>: \<open>st3\<close> after \<open>el_free\<close> of the first allocation;
  \<^item> \<open>st5\<close>: \<open>st4\<close> after \<open>el_free\<close> of the third allocation;
  \<^item> \<open>two_used\<close>: \<open>st1\<close> after \<open>el_malloc(8)\<close>;
  \<^item> \<open>abc\<close>: \<open>two_used\<close> after \<open>el_free\<close> of the first allocation: an available
    block, a used block and an available block, adjacent in this order;
  \<^item> \<open>three_avail\<close>: a heap whose available list holds blocks of sizes 128, 64 and 256
    in this order (after allocating 128, 8, 64 and 3440 bytes and releasing the third
    and the first allocation).
\<close>

definition boot :: el_ctl_t where
  "boot =
    \<lparr>heap_start = 0x0, heap_end = 0x0, heap_bytes = 0,
     avail_actual = \<lparr>beg_actual = 0x404098, end_actual = 0x4040b8, beg = 0x0,
         end_p = 0x0, length_l = 0, bytes = 0\<rparr>,
     used_actual = \<lparr>beg_actual = 0x4040f8, end_actual = 0x404118, beg = 0x0,
         end_p = 0x0, length_l = 0, bytes = 0\<rparr>,
     head_size = (\<lambda>_. 0),
     head_state = (\<lambda>_. 0),
     head_next = (\<lambda>_. 0),
     head_prev = (\<lambda>_. 0),
     foot_size = (\<lambda>_. 0)\<rparr>"

definition fresh :: el_ctl_t where
  "fresh =
    \<lparr>heap_start = 0x600000000000, heap_end = 0x600000001000, heap_bytes = 4096,
     avail_actual = \<lparr>beg_actual = 0x404098, end_actual = 0x4040b8, beg = 0x404098,
         end_p = 0x4040b8, length_l = 1, bytes = 4096\<rparr>,
     used_actual = \<lparr>beg_actual = 0x4040f8, end_actual = 0x404118, beg = 0x4040f8,
         end_p = 0x404118, length_l = 0, bytes = 0\<rparr>,
     head_size = (\<lambda>_. 0)(0x404098 := 12345, 0x4040b8 := 12345, 0x4040f8 := 12345,
         0x404118 := 12345, 0x600000000000 := 4056),
     head_state = (\<lambda>_. 0)(0x404098 := 66, 0x4040b8 := 69, 0x4040f8 := 66,
         0x404118 := 69, 0x600000000000 := 97),
     head_next = (\<lambda>_. 0)(0x404098 := 0x600000000000, 0x4040f8 := 0x404118,
         0x600000000000 := 0x4040b8),
     head_prev = (\<lambda>_. 0)(0x4040b8 := 0x600000000000, 0x404118 := 0x4040f8,
         0x600000000000 := 0x404098),
     foot_size = (\<lambda>_. 0)(0x600000000ff8 := 4056)\<rparr>"


definition st1 :: el_ctl_t where
  "st1 =
    \<lparr>heap_start = 0x600000000000, heap_end = 0x600000001000, heap_bytes = 4096,
     avail_actual = \<lparr>beg_actual = 0x404098, end_actual = 0x4040b8, beg = 0x404098,
         end_p = 0x4040b8, length_l = 1, bytes = 4048\<rparr>,
     used_actual = \<lparr>beg_actual = 0x4040f8, end_actual = 0x404118, beg = 0x4040f8,
         end_p = 0x404118, length_l = 1, bytes = 48\<rparr>,
     head_size = (\<lambda>_. 0)(0x404098 := 12345, 0x4040b8 := 12345, 0x4040f8 := 12345,
         0x404118 := 12345, 0x600000000000 := 8, 0x600000000030 := 4008),
     head_state = (\<lambda>_. 0)(0x404098 := 66, 0x4040b8 := 69, 0x4040f8 := 66,
         0x404118 := 69, 0x600000000000 := 117, 0x600000000030 := 97),
     head_next = (\<lambda>_. 0)(0x404098 := 0x600000000030, 0x4040f8 := 0x600000000000,
         0x600000000000 := 0x404118, 0x600000000030 := 0x4040b8),
     head_prev = (\<lambda>_. 0)(0x4040b8 := 0x600000000030, 0x404118 := 0x600000000000,
         0x600000000000 := 0x4040f8, 0x600000000030 := 0x404098),
     foot_size = (\<lambda>_. 0)(0x600000000028 := 8, 0x600000000ff8 := 4008)\<rparr>"

definition st2 :: el_ctl_t where
  "st2 =
    \<lparr>heap_start = 0x600000000000, heap_end = 0x600000001000, heap_bytes = 4096,
     avail_actual = \<lparr>beg_actual = 0x404098, end_actual = 0x4040b8, beg = 0x404098,
         end_p = 0x4040b8, length_l = 1, bytes = 4048\<rparr>,
     used_actual = \<lparr>beg_actual = 0x4040f8, end_actual = 0x404118, beg = 0x4040f8,
         end_p = 0x404118, length_l = 2, bytes = 4096\<rparr>,
     head_size = (\<lambda>_. 0)(0x404098 := 12345, 0x4040b8 := 12345, 0x4040f8 := 12345,
         0x404118 := 12345, 0x600000000000 := 8, 0x600000000030 := 4008),
     head_state = (\<lambda>_. 0)(0x404098 := 66, 0x4040b8 := 69, 0x4040f8 := 66,
         0x404118 := 69, 0x600000000000 := 117, 0x600000000030 := 97),
     head_next = (\<lambda>_. 0)(0x404098 := 0x600000000030, 0x4040f8 := 0x600000000030,
         0x600000000000 := 0x404118, 0x600000000030 := 0x4040b8),
     head_prev = (\<lambda>_. 0)(0x4040b8 := 0x600000000030, 0x404118 := 0x600000000000,
         0x600000000000 := 0x600000000030, 0x600000000030 := 0x404098),
     foot_size = (\<lambda>_. 0)(0x600000000028 := 0xffffffffffffffd8,
         0x600000000ff8 := 4008)\<rparr>"

definition st3 :: el_ctl_t where
  "st3 =
    \<lparr>heap_start = 0x600000000000, heap_end = 0x600000001000, heap_bytes = 4096,
     avail_actual = \<lparr>beg_actual = 0x404098, end_actual = 0x4040b8, beg = 0x404098,
         end_p = 0x4040b8, length_l = 1, bytes = 3992\<rparr>,
     used_actual = \<lparr>beg_actual = 0x4040f8, end_actual = 0x404118, beg = 0x4040f8,
         end_p = 0x404118, length_l = 3, bytes = 4152\<rparr>,
     head_size = (\<lambda>_. 0)(0x404098 := 12345, 0x4040b8 := 12345, 0x4040f8 := 12345,
         0x404118 := 12345, 0x600000000000 := 8, 0x600000000030 := 16,
         0x600000000068 := 3952),
     head_state = (\<lambda>_. 0)(0x404098 := 66, 0x4040b8 := 69, 0x4040f8 := 66,
         0x404118 := 69, 0x600000000000 := 117, 0x600000000030 := 117, 0x600000000068 := 97),
     head_next = (\<lambda>_. 0)(0x404098 := 0x600000000068, 0x4040f8 := 0x600000000030,
         0x600000000000 := 0x404118, 0x600000000030 := 0x600000000030,
         0x600000000068 := 0x4040b8),
     head_prev = (\<lambda>_. 0)(0x4040b8 := 0x600000000068, 0x404118 := 0x600000000000,
         0x600000000000 := 0x600000000030, 0x600000000030 := 0x600000000030,
         0x600000000068 := 0x404098),
     foot_size = (\<lambda>_. 0)(0x600000000028 := 0xffffffffffffffd8, 0x600000000060 := 16,
         0x600000000ff8 := 3952)\<rparr>"

definition st4 :: el_ctl_t where
  "st4 =
    \<lparr>heap_start = 0x600000000000, heap_end = 0x600000001000, heap_bytes = 4096,
     avail_actual = \<lparr>beg_actual = 0x404098, end_actual = 0x4040b8, beg = 0x404098,
         end_p = 0x4040b8, length_l = 2, bytes = 4040\<rparr>,
     used_actual = \<lparr>beg_actual = 0x4040f8, end_actual = 0x404118, beg = 0x4040f8,
         end_p = 0x404118, length_l = 2, bytes = 4104\<rparr>,
     head_size = (\<lambda>_. 0)(0x404098 := 12345, 0x4040b8 := 12345, 0x4040f8 := 12345,
         0x404118 := 12345, 0x600000000000 := 8, 0x600000000030 := 16,
         0x600000000068 := 3952),
     head_state = (\<lambda>_. 0)(0x404098 := 66, 0x4040b8 := 69, 0x4040f8 := 66,
         0x404118 := 69, 0x600000000000 := 97, 0x600000000030 := 117, 0x600000000068 := 97),
     head_next = (\<lambda>_. 0)(0x404098 := 0x600000000000, 0x4040f8 := 0x600000000030,
         0x600000000000 := 0x600000000068, 0x600000000030 := 0x404118,
         0x600000000068 := 0x4040b8),
     head_prev = (\<lambda>_. 0)(0x4040b8 := 0x600000000068, 0x404118 := 0x600000000030,
         0x600000000000 := 0x404098, 0x600000000030 := 0x600000000030,
         0x600000000068 := 0x600000000000),
     foot_size = (\<lambda>_. 0)(0x600000000028 := 0xffffffffffffffd8, 0x600000000060 := 16,
         0x600000000ff8 := 3952)\<rparr>"

definition st5 :: el_ctl_t where
  "st5 =
    \<lparr>heap_start = 0x600000000000, heap_end = 0x600000001000, heap_bytes = 4096,
     avail_actual = \<lparr>beg_actual = 0x404098, end_actual = 0x4040b8, beg = 0x404098,
         end_p = 0x4040b8, length_l = 2, bytes = 4096\<rparr>,
     used_actual = \<lparr>beg_actual = 0x4040f8, end_actual = 0x404118, beg = 0x4040f8,
         end_p = 0x404118, length_l = 1, bytes = 4048\<rparr>,
     head_size = (\<lambda>_. 0)(0x404098 := 12345, 0x4040b8 := 12345, 0x4040f8 := 12345,
         0x404118 := 12345, 0x600000000000 := 8, 0x600000000030 := 4008,
         0x600000000068 := 3952),
     head_state = (\<lambda>_. 0)(0x404098 := 66, 0x4040b8 := 69, 0x4040f8 := 66,
         0x404118 := 69, 0x600000000000 := 97, 0x600000000030 := 97, 0x600000000068 := 97),
     head_next = (\<lambda>_. 0)(0x404098 := 0x600000000030, 0x4040f8 := 0x600000000030,
         0x600000000000 := 0x4040b8, 0x600000000030 := 0x600000000000,
         0x600000000068 := 0x4040b8),
     head_prev = (\<lambda>_. 0)(0x4040b8 := 0x600000000000, 0x404118 := 0x600000000030,
         0x600000000000 := 0x600000000030, 0x600000000030 := 0x404098,
         0x600000000068 := 0x600000000000),
     foot_size = (\<lambda>_. 0)(0x600000000028 := 0xffffffffffffffd8, 0x600000000060 := 16,
         0x600000000ff8 := 4008)\<rparr>"

definition two_used :: el_ctl_t where
  "two_used =
    \<lparr>heap_start = 0x600000000000, heap_end = 0x600000001000, heap_bytes = 4096,
     avail_actual = \<lparr>beg_actual = 0x404098, end_actual = 0x4040b8, beg = 0x404098,
         end_p = 0x4040b8, length_l = 1, bytes = 4000\<rparr>,
     used_actual = \<lparr>beg_actual = 0x4040f8, end_actual = 0x404118, beg = 0x4040f8,
         end_p = 0x404118, length_l = 2, bytes = 96\<rparr>,
     head_size = (\<lambda>_. 0)(0x404098 := 12345, 0x4040b8 := 12345, 0x4040f8 := 12345,
         0x404118 := 12345, 0x600000000000 := 8, 0x600000000030 := 8,
         0x600000000060 := 3960),
     head_state = (\<lambda>_. 0)(0x404098 := 66, 0x4040b8 := 69, 0x4040f8 := 66,
         0x404118 := 69, 0x600000000000 := 117, 0x600000000030 := 117, 0x600000000060 := 97),
     head_next = (\<lambda>_. 0)(0x404098 := 0x600000000060, 0x4040f8 := 0x600000000030,
         0x600000000000 := 0x404118, 0x600000000030 := 0x600000000000,
         0x600000000060 := 0x4040b8),
     head_prev = (\<lambda>_. 0)(0x4040b8 := 0x600000000060, 0x404118 := 0x600000000000,
         0x600000000000 := 0x600000000030, 0x600000000030 := 0x4040f8,
         0x600000000060 := 0x404098),
     foot_size = (\<lambda>_. 0)(0x600000000028 := 8, 0x600000000058 := 8,
         0x600000000ff8 := 3960)\<rparr>"

definition abc :: el_ctl_t where
  "abc =
    \<lparr>heap_start = 0x600000000000, heap_end = 0x600000001000, heap_bytes = 4096,
     avail_actual = \<lparr>beg_actual = 0x404098, end_actual = 0x4040b8, beg = 0x404098,
         end_p = 0x4040b8, length_l = 2, bytes = 4048\<rparr>,
     used_actual = \<lparr>beg_actual = 0x4040f8, end_actual = 0x404118, beg = 0x4040f8,
         end_p = 0x404118, length_l = 1, bytes = 48\<rparr>,
     head_size = (\<lambda>_. 0)(0x404098 := 12345, 0x4040b8 := 12345, 0x4040f8 := 12345,
         0x404118 := 12345, 0x600000000000 := 8, 0x600000000030 := 8,
         0x600000000060 := 3960),
     head_state = (\<lambda>_. 0)(0x404098 := 66, 0x4040b8 := 69, 0x4040f8 := 66,
         0x404118 := 69, 0x600000000000 := 97, 0x600000000030 := 117, 0x600000000060 := 97),
     head_next = (\<lambda>_. 0)(0x404098 := 0x600000000000, 0x4040f8 := 0x600000000030,
         0x600000000000 := 0x600000000060, 0x600000000030 := 0x404118,
         0x600000000060 := 0x4040b8),
     head_prev = (\<lambda>_. 0)(0x4040b8 := 0x600000000060, 0x404118 := 0x600000000030,
         0x600000000000 := 0x404098, 0x600000000030 := 0x4040f8,
         0x600000000060 := 0x600000000000),
     foot_size = (\<lambda>_. 0)(0x600000000028 := 8, 0x600000000058 := 8,
         0x600000000ff8 := 3960)\<rparr>"


section \<open>Properties of the operations\<close>

subsection \<open>What each operation changes\<close>

lemmas el_consts = sizeof_el_blockhead_t_def sizeof_el_blockfoot_t_def EL_BLOCK_OVERHEAD_def
  EL_AVAILABLE_def EL_USED_def EL_BEGIN_BLOCK_def EL_END_BLOCK_def

lemmas el_sets = set_size_def set_state_def set_next_def set_prev_def set_foot_size_def

lemma the_list_list_update_l [simp]:
  "the_list l (list_update_l l' f s) = (if l = l' then f (the_list l s) else the_list l s)"
  by (cases l; cases l'; simp add: the_list_def list_update_l_def)

lemma sel_list_update_l [simp]:
  "heap_start (list_update_l l f s) = heap_start s"
  "heap_end (list_update_l l f s) = heap_end s"
  "heap_bytes (list_update_l l f s) = heap_bytes s"
  "head_size (list_update_l l f s) = head_size s"
  "head_state (list_update_l l f s) = head_state s"
  "head_next (list_update_l l f s) = head_next s"
  "head_prev (list_update_l l f s) = head_prev s"
  "foot_size (list_update_l l f s) = foot_size s"
  by (cases l; simp add: list_update_l_def)+

lemma the_list_set [simp]:
  "the_list l (set_size p v s) = the_list l s"
  "the_list l (set_state p w s) = the_list l s"
  "the_list l (set_next p q s) = the_list l s"
  "the_list l (set_prev p q s) = the_list l s"
  "the_list l (set_foot_size p v s) = the_list l s"
  by (cases l; simp add: el_sets the_list_def)+

lemma sel_set_size [simp]:
  "heap_start (set_size p v s) = heap_start s"
  "heap_end (set_size p v s) = heap_end s"
  "heap_bytes (set_size p v s) = heap_bytes s"
  "head_size (set_size p v s) = (head_size s)(p := v)"
  "head_state (set_size p v s) = head_state s"
  "head_next (set_size p v s) = head_next s"
  "head_prev (set_size p v s) = head_prev s"
  "foot_size (set_size p v s) = foot_size s"
  by (simp_all add: set_size_def)

lemma sel_set_state [simp]:
  "heap_start (set_state p w s) = heap_start s"
  "heap_end (set_state p w s) = heap_end s"
  "heap_bytes (set_state p w s) = heap_bytes s"
  "head_size (set_state p w s) = head_size s"
  "head_state (set_state p w s) = (head_state s)(p := w)"
  "head_next (set_state p w s) = head_next s"
  "head_prev (set_state p w s) = head_prev s"
  "foot_size (set_state p w s) = foot_size s"
  by (simp_all add: set_state_def)

lemma sel_set_next [simp]:
  "heap_start (set_next p q s) = heap_start s"
  "heap_end (set_next p q s) = heap_end s"
  "heap_bytes (set_next p q s) = heap_bytes s"
  "head_size (set_next p q s) = head_size s"
  "head_state (set_next p q s) = head_state s"
  "head_next (set_next p q s) = (head_next s)(p := q)"
  "head_prev (set_next p q s) = head_prev s"
  "foot_size (set_next p q s) = foot_size s"
  by (simp_all add: set_next_def)

lemma sel_set_prev [simp]:
  "heap_start (set_prev p q s) = heap_start s"
  "heap_end (set_prev p q s) = heap_end s"
  "heap_bytes (set_prev p q s) = heap_bytes s"
  "head_size (set_prev p q s) = head_size s"
  "head_state (set_prev p q s) = head_state s"
  "head_next (set_prev p q s) = head_next s"
  "head_prev (set_prev p q s) = (head_prev s)(p := q)"
  "foot_size (set_prev p q s) = foot_size s"
  by (simp_all add: set_prev_def)

lemma sel_set_foot_size [simp]:
  "heap_start (set_foot_size p v s) = heap_start s"
  "heap_end (set_foot_size p v s) = heap_end s"
  "heap_bytes (set_foot_size p v s) = heap_bytes s"
  "head_size (set_foot_size p v s) = head_size s"
  "head_state (set_foot_size p v s) = head_state s"
  "head_next (set_foot_size p v s) = head_next s"
  "head_prev (set_foot_size p v s) = head_prev s"
  "foot_size (set_foot_size p v s) = (foot_size s)(p := v)"
  by (simp_all add: set_foot_size_def)

lemma sel_el_add_block_front [simp]:
  "heap_start (el_add_block_front l b s) = heap_start s"
  "heap_end (el_add_block_front l b s) = heap_end s"
  "heap_bytes (el_add_block_front l b s) = heap_bytes s"
  "head_size (el_add_block_front l b s) = head_size s"
  "head_state (el_add_block_front l b s) = head_state s"
  "foot_size (el_add_block_front l b s) = foot_size s"
  by (simp_all add: el_add_block_front_def Let_def)

lemma the_list_el_add_block_front [simp]:
  "the_list l' (el_add_block_front l b s) =
     (if l' = l
      then (the_list l s)\<lparr>length_l := length_l (the_list l s) + 1,
             bytes := bytes (the_list l s) + (head_size s b + EL_BLOCK_OVERHEAD)\<rparr>
      else the_list l' s)"
  by (simp add: el_add_block_front_def Let_def)

lemma head_next_el_add_block_front:
  "head_next (el_add_block_front l b s) =
     (head_next s)(b := head_next s (beg (the_list l s)),
                   (if head_next s (beg (the_list l s)) = b then b else beg (the_list l s)) := b)"
  by (simp add: el_add_block_front_def Let_def)

lemma head_prev_el_add_block_front:
  "head_prev (el_add_block_front l b s) =
     (head_prev s)(b := beg (the_list l s), head_next s (beg (the_list l s)) := b)"
  by (simp add: el_add_block_front_def Let_def)

lemma sel_el_remove_block [simp]:
  "heap_start (el_remove_block l b s) = heap_start s"
  "heap_end (el_remove_block l b s) = heap_end s"
  "heap_bytes (el_remove_block l b s) = heap_bytes s"
  "head_size (el_remove_block l b s) = head_size s"
  "head_state (el_remove_block l b s) = head_state s"
  "foot_size (el_remove_block l b s) = foot_size s"
  by (simp_all add: el_remove_block_def Let_def)

lemma the_list_el_remove_block [simp]:
  "the_list l' (el_remove_block l b s) =
     (if l' = l
      then (the_list l s)\<lparr>length_l := length_l (the_list l s) - 1,
             bytes := bytes (the_list l s) - (head_size s b + EL_BLOCK_OVERHEAD)\<rparr>
      else the_list l' s)"
  by (simp add: el_remove_block_def Let_def)

lemma head_next_el_remove_block:
  "head_next (el_remove_block l b s) = (head_next s)(head_prev s b := head_next s b)"
  by (simp add: el_remove_block_def Let_def)

lemma head_prev_el_remove_block:
  "head_prev (el_remove_block l b s) = (head_prev s)(head_next s b := head_prev s b)"
  by (simp add: el_remove_block_def Let_def)

subsection \<open>Chains and lists\<close>

lemma chain_append:
  "chain nx pv p (xs @ y # ys) q = (chain nx pv p xs y \<and> chain nx pv y ys q)"
  by (induction xs arbitrary: p) auto

lemma chain_upd_next:
  "u \<notin> set (p # bs) \<Longrightarrow> chain (nx(u := v)) pv p bs q = chain nx pv p bs q"
  by (induction bs arbitrary: p) auto

lemma chain_upd_prev:
  "u \<notin> set (bs @ [q]) \<Longrightarrow> chain nx (pv(u := v)) p bs q = chain nx pv p bs q"
  by (induction bs arbitrary: p) auto

lemma chain_next_hd: "chain nx pv p bs q \<Longrightarrow> nx p = hd (bs @ [q])"
  by (cases bs) auto

lemma chain_prev_last: "chain nx pv p bs q \<Longrightarrow> pv q = last (p # bs)"
  by (induction bs arbitrary: p) auto

lemma chain_mid_next: "chain nx pv p (xs @ b # ys) q \<Longrightarrow> nx b = hd (ys @ [q])"
  by (auto simp: chain_append dest: chain_next_hd)

lemma chain_mid_prev: "chain nx pv p (xs @ b # ys) q \<Longrightarrow> pv b = last (p # xs)"
  by (auto simp: chain_append dest: chain_prev_last)

lemma chain_unlink_front:
  "chain nx pv p (b # ys) q \<Longrightarrow> distinct (p # b # ys @ [q]) \<Longrightarrow>
   chain (nx(p := hd (ys @ [q]))) (pv(hd (ys @ [q]) := p)) p ys q"
  by (cases ys) (auto simp: chain_upd_next chain_upd_prev)

lemma chain_unlink:
  "chain nx pv p (xs @ b # ys) q \<Longrightarrow> distinct (p # xs @ b # ys @ [q]) \<Longrightarrow>
   chain (nx(last (p # xs) := hd (ys @ [q]))) (pv(hd (ys @ [q]) := last (p # xs))) p (xs @ ys) q"
proof (induction xs arbitrary: p)
  case Nil
  then show ?case using chain_unlink_front [of nx pv p b ys q] by (simp add: fun_upd_def)
next
  case (Cons x xs)
  from Cons.prems have c: "chain nx pv x (xs @ b # ys) q" and d: "distinct (x # xs @ b # ys @ [q])"
    by auto
  have ih: "chain (nx(last (x # xs) := hd (ys @ [q]))) (pv(hd (ys @ [q]) := last (x # xs))) x (xs @ ys) q"
    by (rule Cons.IH [OF c d])
  have "last (x # xs) \<in> set (x # xs)" by (rule last_in_set) simp
  with Cons.prems have 1: "p \<noteq> last (x # xs)" by auto
  have "hd (ys @ [q]) \<in> set (ys @ [q])" by (rule hd_in_set) simp
  with Cons.prems have 2: "x \<noteq> hd (ys @ [q])" by auto
  from Cons.prems have 3: "nx p = x" "pv x = p" by auto
  show ?case using ih 1 2 3 by (simp add: fun_upd_def)
qed

lemma chain_cong_on:
  "(\<And>x. x \<in> set (p # bs) \<Longrightarrow> nx' x = nx x) \<Longrightarrow> (\<And>x. x \<in> set (bs @ [q]) \<Longrightarrow> pv' x = pv x) \<Longrightarrow>
   chain nx' pv' p bs q = chain nx pv p bs q"
  by (induction bs arbitrary: p) auto

lemma is_list_set [simp]:
  "is_list l (set_size p v s) bs = is_list l s bs"
  "is_list l (set_state p w s) bs = is_list l s bs"
  "is_list l (set_foot_size p v s) bs = is_list l s bs"
  by (simp_all add: is_list_def)

lemma is_list_distinct: "is_list l s bs \<Longrightarrow> distinct bs"
  by (simp add: is_list_def)

lemma is_list_sentinels:
  "is_list l s bs \<Longrightarrow> beg (the_list l s) \<notin> set bs \<and> end_p (the_list l s) \<notin> set bs \<and>
     beg (the_list l s) \<noteq> end_p (the_list l s)"
  by (auto simp: is_list_def)

lemma is_list_add_front:
  assumes "is_list l s bs" and "b \<notin> set (beg (the_list l s) # bs @ [end_p (the_list l s)])"
  shows "is_list l (el_add_block_front l b s) (b # bs)"
proof -
  let ?bg = "beg (the_list l s)" and ?e = "end_p (the_list l s)"
  let ?nx = "head_next s" and ?pv = "head_prev s"
  from assms have ch: "chain ?nx ?pv ?bg bs ?e" and d: "distinct (?bg # bs @ [?e])"
    by (simp_all add: is_list_def)
  have n0: "?nx ?bg = hd (bs @ [?e])" using ch by (rule chain_next_hd)
  have "hd (bs @ [?e]) \<in> set (bs @ [?e])" by (rule hd_in_set) simp
  with assms(2) have nb: "hd (bs @ [?e]) \<noteq> b" by auto
  have "chain (?nx(b := hd (bs @ [?e]), ?bg := b)) (?pv(b := ?bg, hd (bs @ [?e]) := b)) ?bg (b # bs) ?e"
  proof (cases bs)
    case Nil
    with assms(2) d show ?thesis by auto
  next
    case (Cons x xs)
    with ch have "chain ?nx ?pv x xs ?e" by simp
    with Cons assms(2) d show ?thesis
      by (auto simp: chain_upd_next chain_upd_prev)
  qed
  with n0 nb assms(2) d show ?thesis
    by (auto simp: is_list_def head_next_el_add_block_front head_prev_el_add_block_front)
qed

lemma is_list_remove:
  assumes "is_list l s bs" and "b \<in> set bs"
  shows "is_list l (el_remove_block l b s) (remove1 b bs)"
proof -
  let ?bg = "beg (the_list l s)" and ?e = "end_p (the_list l s)"
  let ?nx = "head_next s" and ?pv = "head_prev s"
  from assms have ch: "chain ?nx ?pv ?bg bs ?e" and d: "distinct (?bg # bs @ [?e])"
    by (simp_all add: is_list_def)
  from assms(2) obtain xs ys where bs: "bs = xs @ b # ys"
    by (auto simp: in_set_conv_decomp)
  with d have r: "remove1 b bs = xs @ ys"
    by (simp add: remove1_append)
  from ch bs have nx: "?nx b = hd (ys @ [?e])" and pv: "?pv b = last (?bg # xs)"
    using chain_mid_next [of ?nx ?pv ?bg xs b ys ?e] chain_mid_prev [of ?nx ?pv ?bg xs b ys ?e]
    by simp_all
  from ch d bs have "chain (?nx(last (?bg # xs) := hd (ys @ [?e]))) (?pv(hd (ys @ [?e]) := last (?bg # xs))) ?bg (xs @ ys) ?e"
    using chain_unlink [of ?nx ?pv ?bg xs b ys ?e] by simp
  with nx pv r d bs show ?thesis
    by (simp add: is_list_def head_next_el_remove_block head_prev_el_remove_block)
qed

lemma is_list_next_prev_in:
  assumes "is_list l s bs" and "b \<in> set bs"
  shows "head_prev s b \<in> set (beg (the_list l s) # bs)"
    and "head_next s b \<in> set (bs @ [end_p (the_list l s)])"
proof -
  let ?bg = "beg (the_list l s)" and ?e = "end_p (the_list l s)"
  from assms have ch: "chain (head_next s) (head_prev s) ?bg bs ?e"
    by (simp add: is_list_def)
  from assms(2) obtain xs ys where bs: "bs = xs @ b # ys"
    by (auto simp: in_set_conv_decomp)
  have 1: "head_next s b = hd (ys @ [?e])" and 2: "head_prev s b = last (?bg # xs)"
    using ch bs chain_mid_next [of "head_next s" "head_prev s" ?bg xs b ys ?e]
      chain_mid_prev [of "head_next s" "head_prev s" ?bg xs b ys ?e] by simp_all
  have "last (?bg # xs) \<in> set (?bg # xs)" by (rule last_in_set) simp
  with 2 bs show "head_prev s b \<in> set (?bg # bs)" by auto
  have "hd (ys @ [?e]) \<in> set (ys @ [?e])" by (rule hd_in_set) simp
  with 1 bs show "head_next s b \<in> set (bs @ [?e])" by auto
qed

lemma is_list_head_next_beg:
  "is_list l s bs \<Longrightarrow> head_next s (beg (the_list l s)) = hd (bs @ [end_p (the_list l s)])"
  by (auto simp: is_list_def dest: chain_next_hd)

lemma is_list_frame:
  assumes "is_list l s bs"
    and "beg (the_list l s') = beg (the_list l s)" and "end_p (the_list l s') = end_p (the_list l s)"
    and "\<And>x. x \<in> set (beg (the_list l s) # bs) \<Longrightarrow> head_next s' x = head_next s x"
    and "\<And>x. x \<in> set (bs @ [end_p (the_list l s)]) \<Longrightarrow> head_prev s' x = head_prev s x"
  shows "is_list l s' bs"
proof -
  have "chain (head_next s') (head_prev s') (beg (the_list l s)) bs (end_p (the_list l s)) =
        chain (head_next s) (head_prev s) (beg (the_list l s)) bs (end_p (the_list l s))"
    by (rule chain_cong_on) (use assms(4,5) in auto)
  with assms(1,2,3) show ?thesis by (simp add: is_list_def)
qed

lemma is_list_add_front_frame:
  assumes "is_list l' s bs'" and "l' \<noteq> l"
    and "b \<notin> set (nodes l' s bs')"
    and "beg (the_list l s) \<notin> set (nodes l' s bs')"
    and "head_next s (beg (the_list l s)) \<notin> set (nodes l' s bs')"
  shows "is_list l' (el_add_block_front l b s) bs'"
  using assms(1)
proof (rule is_list_frame)
  show "beg (the_list l' (el_add_block_front l b s)) = beg (the_list l' s)"
    "end_p (the_list l' (el_add_block_front l b s)) = end_p (the_list l' s)"
    using assms(2) by simp_all
  fix x assume "x \<in> set (beg (the_list l' s) # bs')"
  with assms(3,4) show "head_next (el_add_block_front l b s) x = head_next s x"
    by (auto simp: head_next_el_add_block_front nodes_def)
next
  fix x assume "x \<in> set (bs' @ [end_p (the_list l' s)])"
  with assms(3,5) show "head_prev (el_add_block_front l b s) x = head_prev s x"
    by (auto simp: head_prev_el_add_block_front nodes_def)
qed

lemma is_list_remove_frame:
  assumes "is_list l' s bs'" and "l' \<noteq> l"
    and "head_prev s b \<notin> set (nodes l' s bs')"
    and "head_next s b \<notin> set (nodes l' s bs')"
  shows "is_list l' (el_remove_block l b s) bs'"
  using assms(1)
proof (rule is_list_frame)
  show "beg (the_list l' (el_remove_block l b s)) = beg (the_list l' s)"
    "end_p (the_list l' (el_remove_block l b s)) = end_p (the_list l' s)"
    using assms(2) by simp_all
  fix x assume "x \<in> set (beg (the_list l' s) # bs')"
  with assms(3) show "head_next (el_remove_block l b s) x = head_next s x"
    by (auto simp: head_next_el_remove_block nodes_def)
next
  fix x assume "x \<in> set (bs' @ [end_p (the_list l' s)])"
  with assms(4) show "head_prev (el_remove_block l b s) x = head_prev s x"
    by (auto simp: head_prev_el_remove_block nodes_def)
qed

lemma nodes_simps [simp]:
  "nodes l (el_add_block_front l' b s) bs = nodes l s bs"
  "nodes l (el_remove_block l' b s) bs = nodes l s bs"
  "nodes l (set_size p v s) bs = nodes l s bs"
  "nodes l (set_state p w s) bs = nodes l s bs"
  "nodes l (set_foot_size p v s) bs = nodes l s bs"
  by (simp_all add: nodes_def)

lemma two_lists_set [simp]:
  "two_lists (set_size p v s) as us = two_lists s as us"
  "two_lists (set_state p w s) as us = two_lists s as us"
  "two_lists (set_foot_size p v s) as us = two_lists s as us"
  by (simp_all add: two_lists_def)

lemma head_next_beg_in_nodes:
  "is_list l s bs \<Longrightarrow> head_next s (beg (the_list l s)) \<in> set (nodes l s bs)"
proof -
  assume "is_list l s bs"
  then have "head_next s (beg (the_list l s)) = hd (bs @ [end_p (the_list l s)])"
    by (rule is_list_head_next_beg)
  moreover have "hd (bs @ [end_p (the_list l s)]) \<in> set (bs @ [end_p (the_list l s)])"
    by (rule hd_in_set) simp
  ultimately show ?thesis by (simp add: nodes_def)
qed

lemma two_lists_add_front_avail:
  assumes "two_lists s as us" and "b \<notin> set (nodes avail s as)" and "b \<notin> set (nodes used s us)"
  shows "two_lists (el_add_block_front avail b s) (b # as) us"
proof -
  from assms(1) have a: "is_list avail s as" and u: "is_list used s us"
    and d: "set (nodes avail s as) \<inter> set (nodes used s us) = {}"
    by (simp_all add: two_lists_def)
  have 1: "is_list avail (el_add_block_front avail b s) (b # as)"
    using a assms(2) by (simp add: is_list_add_front nodes_def)
  have "beg (the_list avail s) \<in> set (nodes avail s as)" by (simp add: nodes_def)
  with d have 2: "beg (the_list avail s) \<notin> set (nodes used s us)" by blast
  from d head_next_beg_in_nodes [OF a]
  have 3: "head_next s (beg (the_list avail s)) \<notin> set (nodes used s us)" by blast
  have 4: "is_list used (el_add_block_front avail b s) us"
    by (rule is_list_add_front_frame [OF u _ assms(3) 2 3]) simp
  from d assms(3) have "set (nodes avail s (b # as)) \<inter> set (nodes used s us) = {}"
    by (auto simp: nodes_def)
  with 1 4 show ?thesis by (simp add: two_lists_def)
qed

lemma two_lists_add_front_used:
  assumes "two_lists s as us" and "b \<notin> set (nodes avail s as)" and "b \<notin> set (nodes used s us)"
  shows "two_lists (el_add_block_front used b s) as (b # us)"
proof -
  from assms(1) have a: "is_list avail s as" and u: "is_list used s us"
    and d: "set (nodes avail s as) \<inter> set (nodes used s us) = {}"
    by (simp_all add: two_lists_def)
  have 1: "is_list used (el_add_block_front used b s) (b # us)"
    using u assms(3) by (simp add: is_list_add_front nodes_def)
  have "beg (the_list used s) \<in> set (nodes used s us)" by (simp add: nodes_def)
  with d have 2: "beg (the_list used s) \<notin> set (nodes avail s as)" by blast
  from d head_next_beg_in_nodes [OF u]
  have 3: "head_next s (beg (the_list used s)) \<notin> set (nodes avail s as)" by blast
  have 4: "is_list avail (el_add_block_front used b s) as"
    by (rule is_list_add_front_frame [OF a _ assms(2) 2 3]) simp
  from d assms(2) have "set (nodes avail s as) \<inter> set (nodes used s (b # us)) = {}"
    by (auto simp: nodes_def)
  with 1 4 show ?thesis by (simp add: two_lists_def)
qed

lemma two_lists_remove_avail:
  assumes "two_lists s as us" and "b \<in> set as"
  shows "two_lists (el_remove_block avail b s) (remove1 b as) us"
proof -
  from assms(1) have a: "is_list avail s as" and u: "is_list used s us"
    and d: "set (nodes avail s as) \<inter> set (nodes used s us) = {}"
    by (simp_all add: two_lists_def)
  have 1: "is_list avail (el_remove_block avail b s) (remove1 b as)"
    using a assms(2) by (rule is_list_remove)
  from is_list_next_prev_in [OF a assms(2)]
  have "head_prev s b \<in> set (nodes avail s as)" "head_next s b \<in> set (nodes avail s as)"
    by (auto simp: nodes_def)
  with d have 2: "head_prev s b \<notin> set (nodes used s us)" "head_next s b \<notin> set (nodes used s us)"
    by blast+
  have 3: "is_list used (el_remove_block avail b s) us"
    by (rule is_list_remove_frame [OF u _ 2]) simp
  have "set (remove1 b as) \<subseteq> set as" by (rule set_remove1_subset)
  with d have "set (nodes avail s (remove1 b as)) \<inter> set (nodes used s us) = {}"
    by (auto simp: nodes_def)
  with 1 3 show ?thesis by (simp add: two_lists_def)
qed

lemma two_lists_remove_used:
  assumes "two_lists s as us" and "b \<in> set us"
  shows "two_lists (el_remove_block used b s) as (remove1 b us)"
proof -
  from assms(1) have a: "is_list avail s as" and u: "is_list used s us"
    and d: "set (nodes avail s as) \<inter> set (nodes used s us) = {}"
    by (simp_all add: two_lists_def)
  have 1: "is_list used (el_remove_block used b s) (remove1 b us)"
    using u assms(2) by (rule is_list_remove)
  from is_list_next_prev_in [OF u assms(2)]
  have "head_prev s b \<in> set (nodes used s us)" "head_next s b \<in> set (nodes used s us)"
    by (auto simp: nodes_def)
  with d have 2: "head_prev s b \<notin> set (nodes avail s as)" "head_next s b \<notin> set (nodes avail s as)"
    by blast+
  have 3: "is_list avail (el_remove_block used b s) as"
    by (rule is_list_remove_frame [OF a _ 2]) simp
  have "set (remove1 b us) \<subseteq> set us" by (rule set_remove1_subset)
  with d have "set (nodes avail s as) \<inter> set (nodes used s (remove1 b us)) = {}"
    by (auto simp: nodes_def)
  with 1 3 show ?thesis by (simp add: two_lists_def)
qed

lemma two_lists_in_avail:
  "two_lists s as us \<Longrightarrow> b \<in> set as \<Longrightarrow> b \<notin> set (nodes used s us) \<and>
     b \<noteq> beg (the_list avail s) \<and> b \<noteq> end_p (the_list avail s)"
  by (auto simp: two_lists_def nodes_def is_list_def)

lemma two_lists_in_used:
  "two_lists s as us \<Longrightarrow> b \<in> set us \<Longrightarrow> b \<notin> set (nodes avail s as) \<and>
     b \<noteq> beg (the_list used s) \<and> b \<noteq> end_p (the_list used s)"
  by (auto simp: two_lists_def nodes_def is_list_def)

lemma two_lists_distinct:
  "two_lists s as us \<Longrightarrow> distinct as \<and> distinct us"
  by (auto simp: two_lists_def is_list_def)

lemma el_merge_block_with_above_merges:
  assumes tl: "two_lists s as us" and lo: "lo \<in> set as" and hi: "hi \<in> set as"
    and ne: "lo \<noteq> hi" and nn: "lo \<noteq> NULL" "hi \<noteq> NULL"
    and st: "head_state s lo = EL_AVAILABLE" "head_state s hi = EL_AVAILABLE"
    and ab: "el_block_above s lo = hi"
  defines "s' \<equiv> el_merge_block_with_above lo s"
  shows "two_lists s' (lo # remove1 hi (remove1 lo as)) us"
    and "head_size s' = (head_size s)(lo := head_size s lo + head_size s hi + EL_BLOCK_OVERHEAD)"
    and "foot_size s' = (foot_size s)(el_get_footer s hi := head_size s lo + head_size s hi + EL_BLOCK_OVERHEAD)"
    and "head_state s' = head_state s"
    and "heap_start s' = heap_start s" and "heap_end s' = heap_end s"
    and "length_l (the_list avail s') = length_l (the_list avail s) - 1"
    and "bytes (the_list avail s') = bytes (the_list avail s)"
    and "the_list used s' = the_list used s"
proof -
  let ?n = "head_size s lo + head_size s hi + EL_BLOCK_OVERHEAD"
  let ?s1 = "el_remove_block avail lo s"
  let ?s2 = "el_remove_block avail hi ?s1"
  let ?s4 = "set_foot_size (el_get_footer s hi) ?n (set_size lo ?n ?s2)"
  have gf: "el_get_footer (set_size lo ?n ?s2) hi = el_get_footer s hi"
    using ne by (simp add: el_get_footer_def)
  have eq: "s' = el_add_block_front avail lo ?s4"
    using nn st ab gf by (simp add: s'_def el_merge_block_with_above_def Let_def)
  have 1: "two_lists ?s1 (remove1 lo as) us"
    using tl lo by (rule two_lists_remove_avail)
  from hi ne have "hi \<in> set (remove1 lo as)" by simp
  with 1 have 2: "two_lists ?s2 (remove1 hi (remove1 lo as)) us"
    by (rule two_lists_remove_avail)
  then have 4: "two_lists ?s4 (remove1 hi (remove1 lo as)) us" by simp
  from two_lists_distinct [OF tl] have "lo \<notin> set (remove1 hi (remove1 lo as))"
    by (auto dest: notin_set_remove1)
  with two_lists_in_avail [OF tl lo]
  have "lo \<notin> set (nodes avail ?s4 (remove1 hi (remove1 lo as)))" "lo \<notin> set (nodes used ?s4 us)"
    by (simp_all add: nodes_def)
  with 4 show "two_lists s' (lo # remove1 hi (remove1 lo as)) us"
    unfolding eq by (rule two_lists_add_front_avail)
  show "head_size s' = (head_size s)(lo := ?n)" by (simp add: eq)
  show "foot_size s' = (foot_size s)(el_get_footer s hi := ?n)" by (simp add: eq)
  show "head_state s' = head_state s" by (simp add: eq)
  show "heap_start s' = heap_start s" "heap_end s' = heap_end s" by (simp_all add: eq)
  show "length_l (the_list avail s') = length_l (the_list avail s) - 1" by (simp add: eq)
  show "bytes (the_list avail s') = bytes (the_list avail s)" by (simp add: eq)
  show "the_list used s' = the_list used s" by (simp add: eq)
qed

subsection \<open>The search\<close>

lemma find_avail_loop_chain:
  "chain (head_next s) pv p bs (end_p (the_list avail s)) \<Longrightarrow>
   end_p (the_list avail s) \<notin> set bs \<Longrightarrow>
   find_avail_loop s sz (head_next s p) =
     Some (case find (\<lambda>b. head_size s b \<ge> sz + EL_BLOCK_OVERHEAD) bs of
             None \<Rightarrow> NULL | Some b \<Rightarrow> b)"
proof (induction bs arbitrary: p)
  case Nil
  then show ?case by (subst find_avail_loop.simps) simp
next
  case (Cons b bs)
  from Cons.prems have 1: "head_next s p = b" and 2: "b \<noteq> end_p (the_list avail s)"
    and 3: "chain (head_next s) pv b bs (end_p (the_list avail s))"
    and 4: "end_p (the_list avail s) \<notin> set bs" by auto
  show ?case using Cons.IH [OF 3 4] 1 2
    by (subst find_avail_loop.simps) simp
qed

lemma el_find_first_avail_is_list:
  "is_list avail s bs \<Longrightarrow>
   el_find_first_avail sz s =
     Some (case find (\<lambda>b. head_size s b \<ge> sz + EL_BLOCK_OVERHEAD) bs of
             None \<Rightarrow> NULL | Some b \<Rightarrow> b)"
  unfolding el_find_first_avail_def is_list_def
  by (rule find_avail_loop_chain) auto

lemma find_avail_loop_fits_aux:
  "find_avail_loop s sz c = Some b \<Longrightarrow> b \<noteq> NULL \<longrightarrow> sz + EL_BLOCK_OVERHEAD \<le> head_size s b"
proof (rule find_avail_loop.raw_induct
    [where P = "\<lambda>s sz c b. b \<noteq> NULL \<longrightarrow> sz + EL_BLOCK_OVERHEAD \<le> head_size s b"])
  fix f s' sz' c' b'
  assume ih: "\<And>s sz c b. f s sz c = Some b \<Longrightarrow> b \<noteq> NULL \<longrightarrow> sz + EL_BLOCK_OVERHEAD \<le> head_size s b"
    and step: "(if c' \<noteq> end_p (the_list avail s')
      then if sz' + EL_BLOCK_OVERHEAD \<le> head_size s' c' then Some c'
           else f s' sz' (head_next s' c')
      else Some NULL) = Some b'"
  show "b' \<noteq> NULL \<longrightarrow> sz' + EL_BLOCK_OVERHEAD \<le> head_size s' b'"
    using step ih [of s' sz' "head_next s' c'" b'] by (auto split: if_splits)
qed

lemma find_avail_loop_fits:
  "find_avail_loop s sz c = Some b \<Longrightarrow> b \<noteq> NULL \<Longrightarrow> head_size s b \<ge> sz + EL_BLOCK_OVERHEAD"
  using find_avail_loop_fits_aux by blast

lemma el_find_first_avail_fits:
  "el_find_first_avail sz s = Some b \<Longrightarrow> b \<noteq> NULL \<Longrightarrow> head_size s b \<ge> sz + EL_BLOCK_OVERHEAD"
  unfolding el_find_first_avail_def by (rule find_avail_loop_fits)

lemma find_some_in_set: "find P xs = Some x \<Longrightarrow> x \<in> set xs \<and> P x"
  by (induction xs) (auto split: if_splits)

lemma el_find_first_avail_cases:
  assumes "is_list avail s bs"
  shows "el_find_first_avail sz s = Some NULL \<or>
         (\<exists>b \<in> set bs. el_find_first_avail sz s = Some b)"
proof (cases "find (\<lambda>b. sz + EL_BLOCK_OVERHEAD \<le> head_size s b) bs")
  case None
  then show ?thesis by (simp add: el_find_first_avail_is_list [OF assms])
next
  case (Some b)
  then have "b \<in> set bs" by (auto dest: find_some_in_set)
  with Some show ?thesis by (simp add: el_find_first_avail_is_list [OF assms])
qed

subsection \<open>Address arithmetic inside the region\<close>

lemma el_get_header_el_get_footer:
  "foot_size s (el_get_footer s head) = head_size s head \<Longrightarrow>
   el_get_header s (el_get_footer s head) = head"
  by (simp add: el_get_header_def el_get_footer_def)

lemma above_in_heap:
  fixes b k sz he :: "64 word"
  assumes "b \<noteq> 0" and "k \<le> sz" and "unat b + unat sz + 40 \<le> unat he"
  shows "\<not> he \<le> b + k" and "b + k \<noteq> 0"
proof -
  have "unat k \<le> unat sz" using assms(2) by (simp add: word_le_nat_alt)
  moreover have "unat he < 2 ^ 64" using unsigned_less [of he] by simp
  ultimately have lt: "unat b + unat k < 2 ^ 64" using assms(3) by linarith
  then have eq: "unat (b + k) = unat b + unat k"
    using unat_add_lem [of b k] by simp
  with \<open>unat k \<le> unat sz\<close> assms(3) have "unat (b + k) < unat he" by linarith
  then show "\<not> he \<le> b + k" by (simp add: word_le_nat_alt)
  have "unat b \<noteq> 0" using assms(1) by (simp add: unat_eq_0)
  with eq show "b + k \<noteq> 0" by (metis add_is_0 unat_eq_0)
qed

lemma block_in_heap_unat_above:
  assumes "block_in_heap s b" and "el_block_above s b = c" and "c \<noteq> NULL"
  shows "c = b + (head_size s b + EL_BLOCK_OVERHEAD)"
    and "unat c = unat b + unat (head_size s b) + 40"
proof -
  from assms(2,3) show c: "c = b + (head_size s b + EL_BLOCK_OVERHEAD)"
    by (auto simp: el_block_above_def Let_def split: if_splits)
  have he: "unat (heap_end s) < 2 ^ 64" using unsigned_less [of "heap_end s"] by simp
  from assms(1) have le: "unat b + unat (head_size s b) + 40 \<le> unat (heap_end s)"
    by (simp add: block_in_heap_def el_consts)
  with he have 1: "unat (head_size s b + 40) = unat (head_size s b) + 40"
    using unat_add_lem [of "head_size s b" 40] by simp
  with le he have "unat (b + (head_size s b + 40)) = unat b + unat (head_size s b + 40)"
    using unat_add_lem [of b "head_size s b + 40"] by simp
  with 1 c show "unat c = unat b + unat (head_size s b) + 40"
    by (simp add: el_consts)
qed

lemma block_in_heap_unat_footer:
  assumes "block_in_heap s b"
  shows "unat (el_get_footer s b) = unat b + 32 + unat (head_size s b)"
proof -
  have he: "unat (heap_end s) < 2 ^ 64" using unsigned_less [of "heap_end s"] by simp
  from assms(1) have le: "unat b + unat (head_size s b) + 40 \<le> unat (heap_end s)"
    by (simp add: block_in_heap_def el_consts)
  with he have 1: "unat (32 + head_size s b) = 32 + unat (head_size s b)"
    using unat_add_lem [of 32 "head_size s b"] by simp
  with le he have "unat (b + (32 + head_size s b)) = unat b + unat (32 + head_size s b)"
    using unat_add_lem [of b "32 + head_size s b"] by simp
  with 1 show ?thesis by (simp add: el_get_footer_def el_consts)
qed

lemma unat_minus_foot:
  fixes b :: "64 word"
  assumes "8 \<le> unat b"
  shows "unat (b - 8) = unat b - 8"
proof -
  have "(8 :: 64 word) \<le> b" using assms by (simp add: word_le_nat_alt)
  then show ?thesis by (simp add: unat_sub)
qed

lemma exhaust_threshold:
  fixes sz :: "64 word"
  assumes "\<not> sz < 40" and "unat sz + 1 < 2 ^ 64"
  shows "\<not> sz - 40 + 1 + 40 \<le> sz - 40"
proof -
  have 1: "unat (sz - 40) = unat sz - 40"
    using assms(1) by (simp add: unat_sub not_less)
  have 2: "sz - 40 + 1 + 40 = sz + 1" by simp
  have 3: "unat (sz + 1) = unat sz + 1"
    using assms(2) unat_add_lem [of sz 1] by simp
  have "\<not> unat (sz + 1) \<le> unat (sz - 40)" unfolding 1 3 by simp
  then show ?thesis unfolding 2 word_le_nat_alt .
qed


subsection \<open>Splitting and allocation\<close>

lemma el_split_block_eq:
  "el_split_block b n s =
     (if head_size s b < n + EL_BLOCK_OVERHEAD then (NULL, s)
      else
        let nb = (if heap_end s \<le> b + (n + EL_BLOCK_OVERHEAD) then NULL
                  else b + (n + EL_BLOCK_OVERHEAD));
            rem = head_size s b - n - EL_BLOCK_OVERHEAD
        in (nb, set_foot_size (nb + (sizeof_el_blockhead_t + rem)) rem
                  (set_size nb rem
                    (set_foot_size (b + (sizeof_el_blockhead_t + n)) n (set_size b n s)))))"
  by (simp add: el_split_block_def el_block_above_def el_get_footer_def Let_def)

lemma block_in_heap_above:
  assumes "block_in_heap s b" and "k \<le> head_size s b"
  shows "\<not> heap_end s \<le> b + k" and "b + k \<noteq> NULL"
  using assms above_in_heap [of b k "head_size s b" "heap_end s"]
  by (simp_all add: block_in_heap_def el_consts)

lemma block_in_heap_payload:
  assumes "block_in_heap s b"
  shows "b + sizeof_el_blockhead_t \<noteq> NULL"
proof -
  have "unat (heap_end s) < 2 ^ 64" using unsigned_less [of "heap_end s"] by simp
  with assms have "unat b + unat (32 :: 64 word) < 2 ^ 64"
    by (simp add: block_in_heap_def el_consts)
  then have "unat (b + 32) = unat b + unat (32 :: 64 word)"
    using unat_add_lem [of b 32] by simp
  then have "unat (b + 32) \<noteq> 0" by simp
  then show ?thesis by (auto simp: el_consts)
qed

lemma el_split_block_fits:
  assumes "n + EL_BLOCK_OVERHEAD \<le> head_size s b" and "block_in_heap s b"
  shows "el_split_block b n s =
     (b + (n + EL_BLOCK_OVERHEAD),
      set_foot_size (b + (n + EL_BLOCK_OVERHEAD) + (sizeof_el_blockhead_t + (head_size s b - n - EL_BLOCK_OVERHEAD)))
        (head_size s b - n - EL_BLOCK_OVERHEAD)
        (set_size (b + (n + EL_BLOCK_OVERHEAD)) (head_size s b - n - EL_BLOCK_OVERHEAD)
          (set_foot_size (b + (sizeof_el_blockhead_t + n)) n (set_size b n s))))"
  using assms block_in_heap_above [OF assms(2) assms(1)]
  by (simp add: el_split_block_eq Let_def not_less [symmetric])

lemma block_in_heap_remove [simp]:
  "block_in_heap (el_remove_block l b' s) b = block_in_heap s b"
  by (simp add: block_in_heap_def)

lemma el_malloc_found:
  assumes "el_find_first_avail nbytes s = Some block" and "block \<noteq> NULL"
    and "block_in_heap s block"
  shows "el_malloc nbytes s =
     Some (block + sizeof_el_blockhead_t,
       el_add_block_front avail (block + (nbytes + EL_BLOCK_OVERHEAD))
         (set_state (block + (nbytes + EL_BLOCK_OVERHEAD)) EL_AVAILABLE
           (el_add_block_front used block
             (set_state block EL_USED
               (snd (el_split_block block nbytes (el_remove_block avail block s)))))))"
    and "fst (el_split_block block nbytes (el_remove_block avail block s)) =
           block + (nbytes + EL_BLOCK_OVERHEAD)"
    and "block + (nbytes + EL_BLOCK_OVERHEAD) \<noteq> NULL"
proof -
  let ?s1 = "el_remove_block avail block s"
  have fits: "nbytes + EL_BLOCK_OVERHEAD \<le> head_size ?s1 block"
    using el_find_first_avail_fits [OF assms(1,2)] by simp
  have inh: "block_in_heap ?s1 block" using assms(3) by simp
  note sp = el_split_block_fits [OF fits inh]
  show 2: "fst (el_split_block block nbytes ?s1) = block + (nbytes + EL_BLOCK_OVERHEAD)"
    by (simp add: sp)
  show 3: "block + (nbytes + EL_BLOCK_OVERHEAD) \<noteq> NULL"
    using block_in_heap_above(2) [OF inh fits] .
  show "el_malloc nbytes s =
     Some (block + sizeof_el_blockhead_t,
       el_add_block_front avail (block + (nbytes + EL_BLOCK_OVERHEAD))
         (set_state (block + (nbytes + EL_BLOCK_OVERHEAD)) EL_AVAILABLE
           (el_add_block_front used block
             (set_state block EL_USED
               (snd (el_split_block block nbytes (el_remove_block avail block s)))))))"
    using assms(1,2) 2 3
    by (simp add: el_malloc_def Let_def split_beta)
qed

lemma el_malloc_NULL_unchanged:
  assumes "is_list avail s bs" and "\<forall>b \<in> set bs. block_in_heap s b"
  shows "\<exists>r. el_malloc nbytes s = Some r"
    and "el_malloc nbytes s = Some (NULL, s') \<Longrightarrow> s' = s"
proof -
  from el_find_first_avail_cases [OF assms(1), of nbytes]
  consider "el_find_first_avail nbytes s = Some NULL"
    | b where "b \<in> set bs" "el_find_first_avail nbytes s = Some b" by blast
  then have "(\<exists>r. el_malloc nbytes s = Some r) \<and> (el_malloc nbytes s = Some (NULL, s') \<longrightarrow> s' = s)"
  proof cases
    case 1
    then show ?thesis by (auto simp: el_malloc_def)
  next
    case 2
    with assms(2) have inh: "block_in_heap s b" by blast
    then have nn: "b \<noteq> NULL" by (simp add: block_in_heap_def)
    from block_in_heap_payload [OF inh] el_malloc_found(1) [OF 2(2) nn inh]
    show ?thesis by simp
  qed
  then show "\<exists>r. el_malloc nbytes s = Some r"
    and "el_malloc nbytes s = Some (NULL, s') \<Longrightarrow> s' = s" by blast+
qed

subsection \<open>Initialisation\<close>

lemma sel_el_init_blocklist [simp]:
  "heap_start (el_init_blocklist u l s) = heap_start s"
  "heap_end (el_init_blocklist u l s) = heap_end s"
  "heap_bytes (el_init_blocklist u l s) = heap_bytes s"
  "foot_size (el_init_blocklist u l s) = foot_size s"
  by (simp_all add: el_init_blocklist_def Let_def)

lemma the_list_el_init_blocklist [simp]:
  "the_list l' (el_init_blocklist u l s) =
     (if l' = l
      then (the_list l s)\<lparr>beg := beg_actual (the_list l s), end_p := end_actual (the_list l s),
             length_l := 0, bytes := 0\<rparr>
      else the_list l' s)"
  by (simp add: el_init_blocklist_def Let_def)

lemma head_el_init_blocklist [simp]:
  "head_next (el_init_blocklist u l s) =
     (head_next s)(beg_actual (the_list l s) := end_actual (the_list l s),
                   end_actual (the_list l s) := NULL)"
  "head_prev (el_init_blocklist u l s) =
     (head_prev s)(beg_actual (the_list l s) := NULL,
                   end_actual (the_list l s) := beg_actual (the_list l s))"
  "head_state (el_init_blocklist u l s) =
     (head_state s)(beg_actual (the_list l s) := EL_BEGIN_BLOCK,
                    end_actual (the_list l s) := EL_END_BLOCK)"
  "head_size (el_init_blocklist u l s) =
     (head_size s)(beg_actual (the_list l s) := u, end_actual (the_list l s) := u)"
  by (simp_all add: el_init_blocklist_def Let_def)

lemma the_list_simple_upd [simp]:
  "the_list l (s\<lparr>heap_bytes := x\<rparr>) = the_list l s"
  "the_list l (s\<lparr>heap_start := y\<rparr>) = the_list l s"
  "the_list l (s\<lparr>heap_end := y\<rparr>) = the_list l s"
  by (cases l; simp add: the_list_def)+

lemma el_init_eq:
  "el_init start sz u heap s =
     (if heap \<noteq> start then Inl Assertion_failed
      else if sz < EL_BLOCK_OVERHEAD then Inl Heap_too_small
      else Inr (el_add_block_front avail heap
             (set_foot_size (heap + (sizeof_el_blockhead_t + (sz - EL_BLOCK_OVERHEAD))) (sz - EL_BLOCK_OVERHEAD)
               (set_state heap EL_AVAILABLE
                 (set_size heap (sz - EL_BLOCK_OVERHEAD)
                   (el_init_blocklist u used
                     (el_init_blocklist u avail
                       (s\<lparr>heap_bytes := sz, heap_start := heap, heap_end := heap + sz\<rparr>))))))))"
  by (simp add: el_init_def el_get_footer_def Let_def)

lemma beg_actual_the_list [simp]:
  "beg_actual (the_list avail s) = beg_actual (avail_actual s)"
  "end_actual (the_list avail s) = end_actual (avail_actual s)"
  "beg_actual (the_list used s) = beg_actual (used_actual s)"
  "end_actual (the_list used s) = end_actual (used_actual s)"
  by (simp_all add: the_list_def)

lemma actual_simple_upd [simp]:
  "avail_actual (s\<lparr>heap_bytes := x\<rparr>) = avail_actual s"
  "used_actual (s\<lparr>heap_bytes := x\<rparr>) = used_actual s"
  by simp_all

lemma el_init_lists:
  assumes "el_init start sz u heap s0 = Inr s" and "sentinels_apart s0 heap"
  shows "is_list avail s [heap]" and "is_list used s []"
    and "head_size s heap = sz - EL_BLOCK_OVERHEAD"
    and "head_state s heap = EL_AVAILABLE"
    and "heap_start s = heap" and "heap_end s = heap + sz" and "heap_bytes s = sz"
    and "\<not> sz < EL_BLOCK_OVERHEAD"
    and "foot_size s (el_get_footer s heap) = sz - EL_BLOCK_OVERHEAD"
    and "length_l (the_list avail s) = 1" and "bytes (the_list avail s) = sz"
    and "length_l (the_list used s) = 0" and "bytes (the_list used s) = 0"
proof -
  from assms(1) have h: "heap = start" and big: "\<not> sz < EL_BLOCK_OVERHEAD"
    by (auto simp: el_init_eq split: if_splits)
  from assms(1) h big have s: "s = el_add_block_front avail heap
             (set_foot_size (heap + (sizeof_el_blockhead_t + (sz - EL_BLOCK_OVERHEAD))) (sz - EL_BLOCK_OVERHEAD)
               (set_state heap EL_AVAILABLE
                 (set_size heap (sz - EL_BLOCK_OVERHEAD)
                   (el_init_blocklist u used
                     (el_init_blocklist u avail
                       (s0\<lparr>heap_bytes := sz, heap_start := heap, heap_end := heap + sz\<rparr>))))))"
    by (simp add: el_init_eq)
  from assms(2) have d: "beg_actual (avail_actual s0) \<noteq> end_actual (avail_actual s0)"
    "beg_actual (avail_actual s0) \<noteq> beg_actual (used_actual s0)"
    "beg_actual (avail_actual s0) \<noteq> end_actual (used_actual s0)"
    "beg_actual (avail_actual s0) \<noteq> heap"
    "end_actual (avail_actual s0) \<noteq> beg_actual (used_actual s0)"
    "end_actual (avail_actual s0) \<noteq> end_actual (used_actual s0)"
    "end_actual (avail_actual s0) \<noteq> heap"
    "beg_actual (used_actual s0) \<noteq> end_actual (used_actual s0)"
    "beg_actual (used_actual s0) \<noteq> heap"
    "end_actual (used_actual s0) \<noteq> heap"
    by (simp_all add: sentinels_apart_def)
  show "\<not> sz < EL_BLOCK_OVERHEAD" by (rule big)
  show "heap_start s = heap" "heap_end s = heap + sz" "heap_bytes s = sz"
    by (simp_all add: s)
  show "head_size s heap = sz - EL_BLOCK_OVERHEAD" by (simp add: s)
  show "head_state s heap = EL_AVAILABLE" by (simp add: s)
  show "foot_size s (el_get_footer s heap) = sz - EL_BLOCK_OVERHEAD"
    by (simp add: s el_get_footer_def)
  show "length_l (the_list avail s) = 1" "bytes (the_list avail s) = sz"
    "length_l (the_list used s) = 0" "bytes (the_list used s) = 0"
    by (simp_all add: s)
  have b: "beg (the_list avail s) = beg_actual (avail_actual s0)"
    "end_p (the_list avail s) = end_actual (avail_actual s0)"
    "beg (the_list used s) = beg_actual (used_actual s0)"
    "end_p (the_list used s) = end_actual (used_actual s0)"
    by (simp_all add: s)
  have nx: "head_next s (beg_actual (avail_actual s0)) = heap"
    "head_next s heap = end_actual (avail_actual s0)"
    "head_next s (beg_actual (used_actual s0)) = end_actual (used_actual s0)"
    using d by (simp_all add: s head_next_el_add_block_front)
  have pv: "head_prev s heap = beg_actual (avail_actual s0)"
    "head_prev s (end_actual (avail_actual s0)) = heap"
    "head_prev s (end_actual (used_actual s0)) = beg_actual (used_actual s0)"
    using d by (simp_all add: s head_prev_el_add_block_front)
  show "is_list avail s [heap]" using d by (simp add: is_list_def b nx pv)
  show "is_list used s []" using d by (simp add: is_list_def b nx pv)
qed

subsection \<open>Merging and release\<close>

lemma el_free_eq:
  "el_free ptr s =
     (let block = ptr - sizeof_el_blockhead_t;
          s3 = el_add_block_front avail block (set_state block EL_AVAILABLE (el_remove_block used block s));
          s4 = el_merge_block_with_above block s3
      in el_merge_block_with_above (el_block_below s4 block) s4)"
  by (simp add: el_free_def Let_def)

section \<open>The example states, step by step\<close>

text \<open>
  The operations in a form without local bindings, so that a call on a state that is
  written out evaluates from the inside outwards; then the calls of the example run.
\<close>

lemma el_add_block_front_eq:
  "el_add_block_front l b s =
     list_update_l l
       (\<lambda>L. L\<lparr>length_l := length_l L + 1, bytes := bytes L + (head_size s b + EL_BLOCK_OVERHEAD)\<rparr>)
       (s\<lparr>head_next := (head_next s)(b := head_next s (beg (the_list l s)),
                   (if head_next s (beg (the_list l s)) = b then b else beg (the_list l s)) := b),
          head_prev := (head_prev s)(b := beg (the_list l s), head_next s (beg (the_list l s)) := b)\<rparr>)"
  by (cases l) (simp_all add: el_add_block_front_def Let_def el_sets list_update_l_def the_list_def)

lemma el_remove_block_eq:
  "el_remove_block l b s =
     list_update_l l
       (\<lambda>L. L\<lparr>length_l := length_l L - 1, bytes := bytes L - (head_size s b + EL_BLOCK_OVERHEAD)\<rparr>)
       (s\<lparr>head_next := (head_next s)(head_prev s b := head_next s b),
          head_prev := (head_prev s)(head_next s b := head_prev s b)\<rparr>)"
  by (cases l) (simp_all add: el_remove_block_def Let_def el_sets list_update_l_def the_list_def)

lemma el_merge_block_with_above_eq:
  "el_merge_block_with_above lower s =
     (if lower = NULL \<or> head_state s lower \<noteq> EL_AVAILABLE then s
      else if el_block_above s lower = NULL \<or> head_state s (el_block_above s lower) \<noteq> EL_AVAILABLE
      then s
      else el_add_block_front avail lower
             (set_foot_size
               (el_block_above s lower +
                 (sizeof_el_blockhead_t +
                   ((head_size s)(lower := head_size s lower + head_size s (el_block_above s lower) + EL_BLOCK_OVERHEAD))
                     (el_block_above s lower)))
               (head_size s lower + head_size s (el_block_above s lower) + EL_BLOCK_OVERHEAD)
               (set_size lower (head_size s lower + head_size s (el_block_above s lower) + EL_BLOCK_OVERHEAD)
                 (el_remove_block avail (el_block_above s lower) (el_remove_block avail lower s)))))"
  by (simp add: el_merge_block_with_above_def Let_def el_get_footer_def)

lemma el_malloc_comp:
  assumes "el_find_first_avail nbytes s = Some block" and "block \<noteq> NULL"
  shows "el_malloc nbytes s =
     (if fst (el_split_block block nbytes (el_remove_block avail block s)) \<noteq> NULL
      then Some (block + sizeof_el_blockhead_t,
             el_add_block_front avail (fst (el_split_block block nbytes (el_remove_block avail block s)))
               (set_state (fst (el_split_block block nbytes (el_remove_block avail block s))) EL_AVAILABLE
                 (el_add_block_front used block
                   (set_state block EL_USED
                     (snd (el_split_block block nbytes (el_remove_block avail block s)))))))
      else Some (NULL, el_add_block_front avail block
                         (snd (el_split_block block nbytes (el_remove_block avail block s)))))"
  using assms by (simp add: el_malloc_def Let_def split_beta)

lemma el_free_comp2:
  "el_free ptr s =
     el_merge_block_with_above
       (el_block_below
         (el_merge_block_with_above (ptr - sizeof_el_blockhead_t)
           (el_add_block_front avail (ptr - sizeof_el_blockhead_t)
             (set_state (ptr - sizeof_el_blockhead_t) EL_AVAILABLE
               (el_remove_block used (ptr - sizeof_el_blockhead_t) s))))
         (ptr - sizeof_el_blockhead_t))
       (el_merge_block_with_above (ptr - sizeof_el_blockhead_t)
         (el_add_block_front avail (ptr - sizeof_el_blockhead_t)
           (set_state (ptr - sizeof_el_blockhead_t) EL_AVAILABLE
             (el_remove_block used (ptr - sizeof_el_blockhead_t) s))))"
  by (simp add: el_free_def Let_def)

lemmas ev = el_add_block_front_eq el_remove_block_eq el_split_block_eq el_sets
  list_update_l_def the_list_def el_consts Let_def
  el_block_above_def el_block_below_def el_get_footer_def el_get_header_def
  el_merge_block_with_above_eq el_free_comp2

lemmas find_ev = el_find_first_avail_def find_avail_loop.simps the_list_def el_consts

lemma step0: "el_init 0x600000000000 4096 12345 0x600000000000 boot = Inr fresh"
  by (simp add: el_init_eq el_init_blocklist_def ev boot_def fresh_def fun_eq_iff)

lemma step1: "el_malloc 8 fresh = Some (0x600000000020, st1)"
proof -
  have f: "el_find_first_avail 8 fresh = Some 0x600000000000"
    by (simp add: find_ev fresh_def)
  have nn: "(0x600000000000 :: addr) \<noteq> NULL" by simp
  show ?thesis
    unfolding el_malloc_comp [OF f nn]
    by (simp add: ev fresh_def st1_def fun_eq_iff)
qed

lemma step2: "el_malloc 0xFFFFFFFFFFFFFFD8 st1 = Some (0x600000000050, st2)"
proof -
  have f: "el_find_first_avail 0xFFFFFFFFFFFFFFD8 st1 = Some 0x600000000030"
    by (simp add: find_ev st1_def)
  have nn: "(0x600000000030 :: addr) \<noteq> NULL" by simp
  show ?thesis
    unfolding el_malloc_comp [OF f nn]
    by (simp add: ev st1_def st2_def fun_eq_iff)
qed

lemma step3: "el_malloc 16 st2 = Some (0x600000000050, st3)"
proof -
  have f: "el_find_first_avail 16 st2 = Some 0x600000000030"
    by (simp add: find_ev st2_def)
  have nn: "(0x600000000030 :: addr) \<noteq> NULL" by simp
  show ?thesis
    unfolding el_malloc_comp [OF f nn]
    by (simp add: ev st2_def st3_def fun_eq_iff)
qed

lemma step4: "el_free 0x600000000020 st3 = st4"
  by (simp add: ev st3_def st4_def fun_eq_iff)

lemma step5: "el_free 0x600000000050 st4 = st5"
  by (simp add: ev st4_def st5_def fun_eq_iff)


lemma step_two_used: "el_malloc 8 st1 = Some (0x600000000050, two_used)"
proof -
  have f: "el_find_first_avail 8 st1 = Some 0x600000000030"
    by (simp add: find_ev st1_def)
  have nn: "(0x600000000030 :: addr) \<noteq> NULL" by simp
  show ?thesis
    unfolding el_malloc_comp [OF f nn]
    by (simp add: ev st1_def two_used_def fun_eq_iff)
qed

lemma step_abc: "el_free 0x600000000020 two_used = abc"
  by (simp add: ev two_used_def abc_def fun_eq_iff)

lemma fresh_facts:
  "is_list avail fresh [0x600000000000]"
  "is_list used fresh []"
  "block_in_heap fresh 0x600000000000"
  "head_size fresh 0x600000000000 = 4056"
  by (simp_all add: is_list_def block_in_heap_def fresh_def the_list_def el_consts)

lemma boot_sentinels_apart: "sentinels_apart boot 0x600000000000"
  by (simp add: sentinels_apart_def boot_def)


lemma abc_facts:
  "two_lists abc [0x600000000000, 0x600000000060] [0x600000000030]"
  "block_in_heap abc 0x600000000000"
  "block_in_heap abc 0x600000000030"
  "block_in_heap abc 0x600000000060"
  "el_block_above abc 0x600000000000 = 0x600000000030"
  "el_block_above abc 0x600000000030 = 0x600000000060"
  "el_block_below abc 0x600000000030 = 0x600000000000"
  "head_state abc 0x600000000000 = EL_AVAILABLE"
  "head_state abc 0x600000000030 = EL_USED"
  "head_state abc 0x600000000060 = EL_AVAILABLE"
  "head_size abc 0x600000000000 = 8"
  "head_size abc 0x600000000030 = 8"
  "head_size abc 0x600000000060 = 3960"
  "length_l (the_list avail abc) = 2"
  "length_l (the_list used abc) = 1"
  by (simp_all add: two_lists_def nodes_def is_list_def block_in_heap_def abc_def the_list_def
      el_block_above_def el_block_below_def el_get_header_def el_consts)

section \<open>The invariant of the allocator\<close>

text \<open>
  \<open>el_init\<close> establishes \<open>heap_inv\<close>; \<open>el_malloc\<close> keeps it when the request plus the
  overhead does not wrap, and \<open>el_free\<close> keeps it when its argument is a pointer that
  \<open>el_malloc\<close> returned and that was not released since.
\<close>

subsection \<open>Tilings\<close>

lemma tiles_append:
  "tiles sz a (xs @ ys) e = (\<exists>m. tiles sz a xs m \<and> tiles sz m ys e)"
  by (induction xs arbitrary: a) auto

lemma tiles_le: "tiles sz a bs e \<Longrightarrow> a \<le> e"
proof (induction bs arbitrary: a)
  case Nil then show ?case by simp
next
  case (Cons b bs)
  then have "a + unat (sz b) + unat EL_BLOCK_OVERHEAD \<le> e" by auto
  then show ?case by simp
qed

lemma tiles_mem:
  "tiles sz a bs e \<Longrightarrow> b \<in> set bs \<Longrightarrow>
     a \<le> unat b \<and> unat b + unat (sz b) + unat EL_BLOCK_OVERHEAD \<le> e"
proof (induction bs arbitrary: a)
  case Nil then show ?case by simp
next
  case (Cons c cs)
  show ?case
  proof (cases "b = c")
    case True
    with Cons.prems tiles_le [of sz "a + unat (sz c) + unat EL_BLOCK_OVERHEAD" cs e]
    show ?thesis by auto
  next
    case False
    with Cons.prems Cons.IH [of "a + unat (sz c) + unat EL_BLOCK_OVERHEAD"]
    show ?thesis by auto
  qed
qed

lemma tiles_before:
  "tiles sz a (xs @ b # ys) e \<Longrightarrow> x \<in> set xs \<Longrightarrow>
     unat x + unat (sz x) + unat EL_BLOCK_OVERHEAD \<le> unat b"
  by (auto simp: tiles_append dest: tiles_mem)

lemma tiles_after:
  "tiles sz a (xs @ b # ys) e \<Longrightarrow> y \<in> set ys \<Longrightarrow>
     unat b + unat (sz b) + unat EL_BLOCK_OVERHEAD \<le> unat y"
  by (auto simp: tiles_append dest: tiles_mem)

lemma tiles_cong:
  "(\<And>x. x \<in> set bs \<Longrightarrow> sz' x = sz x) \<Longrightarrow> tiles sz' a bs e = tiles sz a bs e"
  by (induction bs arbitrary: a) auto

lemma tiles_distinct: "tiles sz a bs e \<Longrightarrow> distinct bs"
proof (induction bs arbitrary: a)
  case Nil then show ?case by simp
next
  case (Cons c cs)
  then have t: "tiles sz (a + unat (sz c) + unat EL_BLOCK_OVERHEAD) cs e" and c: "unat c = a" by auto
  have "c \<notin> set cs"
  proof
    assume "c \<in> set cs"
    from tiles_mem [OF t this] c show False by (simp add: EL_BLOCK_OVERHEAD_def sizeof_el_blockhead_t_def sizeof_el_blockfoot_t_def)
  qed
  with Cons.IH [OF t] show ?case by simp
qed

lemmas oh = EL_BLOCK_OVERHEAD_def sizeof_el_blockhead_t_def sizeof_el_blockfoot_t_def

subsection \<open>Consequences of the tiling\<close>

lemma tiled_block_in_heap:
  assumes "tiled s bl" and "b \<in> set bl"
  shows "block_in_heap s b"
proof -
  from assms(1) have t: "tiles (head_size s) (unat (heap_start s)) bl (unat (heap_end s))"
    and p: "0 < unat (heap_start s)" by (simp_all add: tiled_def)
  from tiles_mem [OF t assms(2)] p show ?thesis
    by (auto simp: block_in_heap_def unat_eq_0)
qed

lemma tiled_distinct: "tiled s bl \<Longrightarrow> distinct bl"
  by (auto simp: tiled_def dest: tiles_distinct)

lemma block_in_heap_inside:
  "block_in_heap s b \<Longrightarrow> \<not> outside_region s b"
  by (auto simp: block_in_heap_def outside_region_def oh)

lemma tiled_footer:
  "tiled s bl \<Longrightarrow> b \<in> set bl \<Longrightarrow> foot_size s (el_get_footer s b) = head_size s b"
  by (auto simp: tiled_def list_all_iff)

text \<open>The block above: the next block of the tiling, or none at the end of the region.\<close>

lemma el_block_above_tiled:
  assumes "tiled s bl" and "bl = xs @ b # ys"
  shows "el_block_above s b = (case ys of [] \<Rightarrow> NULL | c # _ \<Rightarrow> c)"
proof -
  from assms have t: "tiles (head_size s) (unat (heap_start s)) (xs @ b # ys) (unat (heap_end s))"
    and p: "0 < unat (heap_start s)" by (simp_all add: tiled_def)
  from t obtain m where m: "tiles (head_size s) m (b # ys) (unat (heap_end s))"
    by (auto simp: tiles_append)
  then have ty: "tiles (head_size s) (unat b + unat (head_size s b) + 40) ys (unat (heap_end s))"
    by (simp add: oh)
  have he: "unat (heap_end s) < 2 ^ 64" using unsigned_less [of "heap_end s"] by simp
  from tiles_le [OF ty] have le: "unat b + unat (head_size s b) + 40 \<le> unat (heap_end s)" .
  with he have 1: "unat (head_size s b + 40) = unat (head_size s b) + 40"
    using unat_add_lem [of "head_size s b" 40] by simp
  with le he have 2: "unat (b + (head_size s b + 40)) = unat b + unat (head_size s b) + 40"
    using unat_add_lem [of b "head_size s b + 40"] by simp
  show ?thesis
  proof (cases ys)
    case Nil
    with ty have "unat b + unat (head_size s b) + 40 = unat (heap_end s)" by simp
    with 2 have "heap_end s \<le> b + (head_size s b + 40)" by (simp add: word_le_nat_alt)
    with Nil show ?thesis by (simp add: el_block_above_def oh)
  next
    case (Cons c cs)
    with ty have c: "unat c = unat b + unat (head_size s b) + 40"
      and tc: "tiles (head_size s) (unat c + unat (head_size s c) + 40) cs (unat (heap_end s))"
      by (simp_all add: oh)
    from tiles_le [OF tc] have "unat c < unat (heap_end s)" by simp
    with c 2 have "\<not> heap_end s \<le> b + (head_size s b + 40)" by (simp add: word_le_nat_alt)
    moreover from c 2 have "b + (head_size s b + 40) = c" by (simp add: word_unat_eq_iff)
    ultimately show ?thesis using Cons by (simp add: el_block_above_def oh)
  qed
qed

text \<open>The block below: the previous block of the tiling, found through its footer.\<close>

lemma el_block_below_tiled:
  assumes "tiled s bl" and "bl = xs @ b # ys"
  shows "el_block_below s b = (if xs = [] then NULL else last xs)"
proof (cases xs rule: rev_cases)
  case Nil
  with assms have "unat b = unat (heap_start s)" by (simp add: tiled_def)
  then have "b = heap_start s" by (simp add: word_unat_eq_iff)
  with Nil show ?thesis by (simp add: el_block_below_def)
next
  case (snoc xs' a)
  with assms have t: "tiles (head_size s) (unat (heap_start s)) (xs' @ a # b # ys) (unat (heap_end s))"
    by (simp add: tiled_def)
  have ain: "a \<in> set bl" using assms(2) snoc by simp
  note inh = tiled_block_in_heap [OF assms(1) ain]
  from t obtain m where "tiles (head_size s) m (a # b # ys) (unat (heap_end s))"
    by (auto simp: tiles_append)
  then have ub: "unat b = unat a + unat (head_size s a) + 40" by (simp add: oh)
  from tiles_mem [OF _ ain, of "head_size s" "unat (heap_start s)" "unat (heap_end s)"] assms
  have "unat (heap_start s) \<le> unat a" by (simp add: tiled_def)
  with ub have "unat b \<noteq> unat (heap_start s)" by simp
  then have ne: "b \<noteq> heap_start s" by auto
  have uf: "unat (el_get_footer s a) = unat a + 32 + unat (head_size s a)"
    by (rule block_in_heap_unat_footer [OF inh])
  have "unat (b - 8) = unat b - 8" using ub by (intro unat_minus_foot) simp
  with uf ub have "b - 8 = el_get_footer s a" by (simp add: word_unat_eq_iff)
  then have "el_get_header s (b - 8) = a"
    using tiled_footer [OF assms(1) ain] by (simp add: el_get_header_el_get_footer)
  with ne snoc show ?thesis by (simp add: el_block_below_def oh)
qed

subsection \<open>Which operation touches which part of the invariant\<close>

lemma sentinels_outside_ops [simp]:
  "sentinels_outside (el_add_block_front l b s) = sentinels_outside s"
  "sentinels_outside (el_remove_block l b s) = sentinels_outside s"
  "sentinels_outside (set_size p v s) = sentinels_outside s"
  "sentinels_outside (set_state p w s) = sentinels_outside s"
  "sentinels_outside (set_foot_size p v s) = sentinels_outside s"
  by (simp_all add: sentinels_outside_def outside_region_def)

lemma el_get_footer_ops [simp]:
  "el_get_footer (el_add_block_front l b s) = el_get_footer s"
  "el_get_footer (el_remove_block l b s) = el_get_footer s"
  "el_get_footer (set_state p w s) = el_get_footer s"
  "el_get_footer (set_foot_size p v s) = el_get_footer s"
  by (simp_all add: el_get_footer_def fun_eq_iff)

lemma tiled_ops [simp]:
  "tiled (el_add_block_front l b s) bl = tiled s bl"
  "tiled (el_remove_block l b s) bl = tiled s bl"
  "tiled (set_state p w s) bl = tiled s bl"
  by (simp_all add: tiled_def)

lemma marked_ops [simp]:
  "marked (el_add_block_front l b s) as us = marked s as us"
  "marked (el_remove_block l b s) as us = marked s as us"
  "marked (set_size p v s) as us = marked s as us"
  "marked (set_foot_size p v s) as us = marked s as us"
  by (simp_all add: marked_def)

lemma counted_ops [simp]:
  "counted l (set_state p w s) bs = counted l s bs"
  "counted l (set_foot_size p v s) bs = counted l s bs"
  by (simp_all add: counted_def)

lemma counted_other [simp]:
  "l' \<noteq> l \<Longrightarrow> counted l' (el_add_block_front l b s) bs = counted l' s bs"
  "l' \<noteq> l \<Longrightarrow> counted l' (el_remove_block l b s) bs = counted l' s bs"
  by (simp_all add: counted_def)

lemma counted_set_size:
  "p \<notin> set bs \<Longrightarrow> counted l (set_size p v s) bs = counted l s bs"
proof -
  assume "p \<notin> set bs"
  then have eq: "map (\<lambda>b. ((head_size s)(p := v)) b + EL_BLOCK_OVERHEAD) bs =
             map (\<lambda>b. head_size s b + EL_BLOCK_OVERHEAD) bs"
    by (induction bs) auto
  show ?thesis unfolding counted_def by (simp only: sel_set_size the_list_set eq)
qed

lemma counted_add_front:
  "counted l s bs \<Longrightarrow> counted l (el_add_block_front l b s) (b # bs)"
  by (simp add: counted_def ac_simps)

lemma counted_remove:
  assumes "counted l s bs" and "b \<in> set bs"
  shows "counted l (el_remove_block l b s) (remove1 b bs)"
proof -
  from assms(2) have "length bs = Suc (length (remove1 b bs))"
    by (simp add: length_remove1) (cases bs; auto)
  then have 1: "(of_nat (length bs) :: 64 word) - 1 = of_nat (length (remove1 b bs))" by simp
  have 2: "sum_list (map (\<lambda>b. head_size s b + EL_BLOCK_OVERHEAD) bs) =
        (head_size s b + EL_BLOCK_OVERHEAD) +
        sum_list (map (\<lambda>b. head_size s b + EL_BLOCK_OVERHEAD) (remove1 b bs))"
    using assms(2) by (rule sum_list_map_remove1)
  from assms(1) 1 2 show ?thesis by (simp add: counted_def)
qed

lemma marked_set_state_avail:
  "marked s as us \<Longrightarrow> b \<notin> set us \<Longrightarrow> marked (set_state b EL_AVAILABLE s) (b # as) us"
  by (auto simp: marked_def list_all_iff)

lemma marked_set_state_used:
  "marked s as us \<Longrightarrow> b \<notin> set as \<Longrightarrow> marked (set_state b EL_USED s) as (b # us)"
  by (auto simp: marked_def list_all_iff)

lemma marked_remove:
  "marked s as us \<Longrightarrow> marked s (remove1 b as) us"
  "marked s as us \<Longrightarrow> marked s as (remove1 b us)"
  by (auto simp: marked_def list_all_iff dest: notin_set_remove1)

lemma marked_avail: "marked s as us \<Longrightarrow> b \<in> set as \<Longrightarrow> head_state s b = EL_AVAILABLE"
  by (auto simp: marked_def list_all_iff)

lemma marked_used: "marked s as us \<Longrightarrow> b \<in> set us \<Longrightarrow> head_state s b = EL_USED"
  by (auto simp: marked_def list_all_iff)

lemma two_lists_disjoint: "two_lists s as us \<Longrightarrow> set as \<inter> set us = {}"
  by (auto simp: two_lists_def nodes_def)

lemma sentinel_not_block:
  assumes "sentinels_outside s" and "block_in_heap s b"
  shows "b \<noteq> beg (the_list avail s)" "b \<noteq> end_p (the_list avail s)"
    "b \<noteq> beg (the_list used s)" "b \<noteq> end_p (the_list used s)"
  using assms block_in_heap_inside [OF assms(2)]
  by (auto simp: sentinels_outside_def)

subsection \<open>Splitting a block of the tiling\<close>

lemma split_arith:
  fixes b n sz he :: "64 word"
  assumes "unat n + 40 \<le> unat sz" and "unat b + unat sz + 40 \<le> unat he"
  shows "unat (n + 40) = unat n + 40"
    and "unat (b + (n + 40)) = unat b + unat n + 40"
    and "unat (sz - n - 40) = unat sz - unat n - 40"
    and "unat (b + (32 + n)) = unat b + 32 + unat n"
    and "unat (b + (n + 40) + (32 + (sz - n - 40))) = unat b + 32 + unat sz"
    and "n + 40 \<le> sz"
proof -
  have he: "unat he < 2 ^ 64" using unsigned_less [of he] by simp
  show 1: "unat (n + 40) = unat n + 40"
    using assms he unat_add_lem [of n 40] by simp
  show 2: "unat (b + (n + 40)) = unat b + unat n + 40"
    using assms he 1 unat_add_lem [of b "n + 40"] by simp
  show le: "n + 40 \<le> sz" using assms(1) 1 by (simp add: word_le_nat_alt)
  have eq: "sz - n - 40 = sz - (n + 40)" by simp
  have "unat (sz - (n + 40)) = unat sz - unat (n + 40)" using le by (rule unat_sub)
  then show 3: "unat (sz - n - 40) = unat sz - unat n - 40"
    unfolding eq 1 by simp
  have 4: "unat (32 + n) = 32 + unat n"
    using assms he unat_add_lem [of 32 n] by simp
  then show "unat (b + (32 + n)) = unat b + 32 + unat n"
    using assms he unat_add_lem [of b "32 + n"] by simp
  have "b + (n + 40) + (32 + (sz - n - 40)) = b + (32 + sz)" by simp
  moreover have "unat (32 + sz) = 32 + unat sz"
    using assms he unat_add_lem [of 32 sz] by simp
  then have "unat (b + (32 + sz)) = unat b + 32 + unat sz"
    using assms he unat_add_lem [of b "32 + sz"] by simp
  ultimately show "unat (b + (n + 40) + (32 + (sz - n - 40))) = unat b + 32 + unat sz"
    by simp
qed

lemma split_tiled:
  assumes td: "tiled s (xs @ b # ys)"
    and fit: "unat n + 40 \<le> unat (head_size s b)"
  defines "nb \<equiv> b + (n + EL_BLOCK_OVERHEAD)"
    and "rem \<equiv> head_size s b - n - EL_BLOCK_OVERHEAD"
  defines "s2 \<equiv> set_foot_size (nb + (sizeof_el_blockhead_t + rem)) rem
                  (set_size nb rem
                    (set_foot_size (b + (sizeof_el_blockhead_t + n)) n (set_size b n s)))"
  shows "tiled s2 (xs @ b # nb # ys)"
    and "nb \<notin> set (xs @ b # ys)"
    and "block_in_heap s2 nb"
proof -
  let ?sz = "head_size s" and ?e = "unat (heap_end s)"
  have bin: "b \<in> set (xs @ b # ys)" by simp
  note inh = tiled_block_in_heap [OF td bin]
  then have le: "unat b + unat (?sz b) + 40 \<le> ?e"
    by (auto simp: block_in_heap_def oh)
  note ar = split_arith [OF fit le]
  have unb: "unat nb = unat b + unat n + 40" using ar(2) by (simp add: nb_def oh)
  have urem: "unat rem = unat (?sz b) - unat n - 40" using ar(3) by (simp add: rem_def oh)
  from td have t: "tiles ?sz (unat (heap_start s)) (xs @ b # ys) ?e"
    and hp: "0 < unat (heap_start s)"
    and ft: "list_all (\<lambda>c. foot_size s (el_get_footer s c) = ?sz c) (xs @ b # ys)"
    by (simp_all add: tiled_def)
  have xs_lt: "\<And>x. x \<in> set xs \<Longrightarrow> unat x + unat (?sz x) + 40 \<le> unat b"
    using tiles_before [OF t] by (simp add: oh)
  have ys_gt: "\<And>y. y \<in> set ys \<Longrightarrow> unat b + unat (?sz b) + 40 \<le> unat y"
    using tiles_after [OF t] by (simp add: oh)
  have nbx: "nb \<notin> set xs" using xs_lt unb by fastforce
  have nby: "nb \<notin> set ys" using ys_gt unb fit by fastforce
  have nbb: "nb \<noteq> b" using unb by auto
  from tiles_distinct [OF t] have bx: "b \<notin> set xs" and by': "b \<notin> set ys" by auto
  show "nb \<notin> set (xs @ b # ys)" using nbx nby nbb by simp
  have sz2: "head_size s2 = (?sz)(b := n, nb := rem)" by (simp add: s2_def)
  have f2: "foot_size s2 = (foot_size s)(b + (32 + n) := n, nb + (32 + rem) := rem)"
    by (simp add: s2_def oh)
  have bounds: "heap_start s2 = heap_start s" "heap_end s2 = heap_end s" by (simp_all add: s2_def)
  \<comment> \<open>the tiling\<close>
  from t obtain m where t1: "tiles ?sz (unat (heap_start s)) xs m" and t2: "tiles ?sz m (b # ys) ?e"
    by (auto simp: tiles_append)
  from t2 have mb: "m = unat b" and t3: "tiles ?sz (unat b + unat (?sz b) + 40) ys ?e"
    by (simp_all add: oh)
  have t1': "tiles (head_size s2) (unat (heap_start s)) xs m"
    using t1 bx nbx by (subst tiles_cong [of xs _ ?sz]) (auto simp: sz2)
  have t3': "tiles (head_size s2) (unat b + unat (?sz b) + 40) ys ?e"
    using t3 by' nby by (subst tiles_cong [of ys _ ?sz]) (auto simp: sz2)
  have e1: "unat nb + unat (head_size s2 nb) + unat EL_BLOCK_OVERHEAD = unat b + unat (?sz b) + 40"
    using unb urem fit by (simp add: sz2 oh)
  have t4: "tiles (head_size s2) (unat nb + unat (head_size s2 nb) + unat EL_BLOCK_OVERHEAD) ys ?e"
    unfolding e1 by (rule t3')
  have e2: "unat b + unat (head_size s2 b) + unat EL_BLOCK_OVERHEAD = unat nb"
    using unb nbb by (simp add: sz2 oh)
  have "tiles (head_size s2) (unat b) (b # nb # ys) ?e"
    unfolding tiles.simps e2 using t4 by simp
  then have "tiles (head_size s2) m (b # nb # ys) ?e" by (simp only: mb)
  with t1' have tl: "tiles (head_size s2) (unat (heap_start s2)) (xs @ b # nb # ys) (unat (heap_end s2))"
    by (auto simp: tiles_append bounds)
  \<comment> \<open>the footers\<close>
  have ufb: "unat (b + (32 + n)) = unat b + 32 + unat n" by (rule ar(4))
  have ufn: "unat (nb + (32 + rem)) = unat b + 32 + unat (?sz b)"
    using ar(5) by (simp add: nb_def rem_def oh)
  have "unat (b + (32 + n)) \<noteq> unat (nb + (32 + rem))" unfolding ufb ufn using fit by simp
  then have fne: "b + (32 + n) \<noteq> nb + (32 + rem)" by metis
  have fb: "foot_size s2 (el_get_footer s2 b) = head_size s2 b"
    using nbb fne by (simp add: sz2 f2 el_get_footer_def oh)
  have fn: "foot_size s2 (el_get_footer s2 nb) = head_size s2 nb"
    by (simp add: sz2 f2 el_get_footer_def oh)
  have fo: "foot_size s2 (el_get_footer s2 c) = head_size s2 c"
    if c: "c \<in> set xs \<union> set ys" for c
  proof -
    from c have cin: "c \<in> set (xs @ b # ys)" by auto
    from c bx by' nbx nby have cne: "c \<noteq> b" "c \<noteq> nb" by auto
    note cinh = tiled_block_in_heap [OF td cin]
    have uc: "unat (el_get_footer s c) = unat c + 32 + unat (?sz c)"
      by (rule block_in_heap_unat_footer [OF cinh])
    have "unat (el_get_footer s c) \<noteq> unat (b + (32 + n)) \<and>
          unat (el_get_footer s c) \<noteq> unat (nb + (32 + rem))"
      using c xs_lt [of c] ys_gt [of c] uc ufb ufn fit by auto
    then have "el_get_footer s c \<noteq> b + (32 + n)" "el_get_footer s c \<noteq> nb + (32 + rem)"
      by auto
    moreover have "el_get_footer s2 c = el_get_footer s c"
      using cne by (simp add: el_get_footer_def sz2)
    moreover have "foot_size s (el_get_footer s c) = ?sz c"
      using ft cin by (auto simp: list_all_iff)
    ultimately show ?thesis using cne by (simp add: f2 sz2)
  qed
  have "list_all (\<lambda>c. foot_size s2 (el_get_footer s2 c) = head_size s2 c) (xs @ b # nb # ys)"
    using fb fn fo by (auto simp: list_all_iff)
  with tl hp show tiled2: "tiled s2 (xs @ b # nb # ys)" by (simp add: tiled_def bounds)
  show "block_in_heap s2 nb"
    by (rule tiled_block_in_heap [OF tiled2]) simp
qed

subsection \<open>Adjacent available blocks\<close>

lemma no_adjacent_avail_Cons2 [simp]:
  "no_adjacent_avail st (b # c # bs) =
     (\<not> (st b = EL_AVAILABLE \<and> st c = EL_AVAILABLE) \<and> no_adjacent_avail st (c # bs))"
  by simp

lemma no_adjacent_avail_single [simp]: "no_adjacent_avail st [b] = True"
  by simp

declare no_adjacent_avail.simps(2) [simp del]

lemma no_adjacent_avail_append:
  "no_adjacent_avail st (xs @ y # ys) =
     (no_adjacent_avail st (xs @ [y]) \<and> no_adjacent_avail st (y # ys))"
proof (induction xs rule: induct_list012)
  case 1 then show ?case by simp
next
  case (2 x) then show ?case by simp
next
  case (3 x x' xs) then show ?case by simp
qed

lemma no_adjacent_avail_mono:
  "no_adjacent_avail st bl \<Longrightarrow> (\<And>x. x \<in> set bl \<Longrightarrow> st' x = EL_AVAILABLE \<Longrightarrow> st x = EL_AVAILABLE) \<Longrightarrow>
   no_adjacent_avail st' bl"
proof (induction bl rule: induct_list012)
  case 1 then show ?case by simp
next
  case (2 x) then show ?case by simp
next
  case (3 x y zs)
  then show ?case by auto
qed

text \<open>A block that is not available separates what is below it from what is above it.\<close>

lemma no_adjacent_avail_split_at:
  "st b \<noteq> EL_AVAILABLE \<Longrightarrow>
   no_adjacent_avail st (xs @ b # ys) = (no_adjacent_avail st xs \<and> no_adjacent_avail st ys)"
proof (induction xs rule: induct_list012)
  case 1 then show ?case by (cases ys) auto
next
  case (2 x) then show ?case by (cases ys) auto
next
  case (3 x y zs) then show ?case by simp
qed

lemma no_adjacent_avail_join:
  "no_adjacent_avail st (xs @ b # ys) =
     (no_adjacent_avail st xs \<and> no_adjacent_avail st ys \<and>
      (xs \<noteq> [] \<longrightarrow> \<not> (st (last xs) = EL_AVAILABLE \<and> st b = EL_AVAILABLE)) \<and>
      (ys \<noteq> [] \<longrightarrow> \<not> (st b = EL_AVAILABLE \<and> st (hd ys) = EL_AVAILABLE)))"
proof (induction xs rule: induct_list012)
  case 1 then show ?case by (cases ys) auto
next
  case (2 x) then show ?case by (cases ys) auto
next
  case (3 x y zs) then show ?case by auto
qed

lemma no_adjacent_avail_next:
  "no_adjacent_avail st (xs @ b # c # ys) \<Longrightarrow> st b = EL_AVAILABLE \<Longrightarrow> st c \<noteq> EL_AVAILABLE"
  using no_adjacent_avail_join [of st xs b "c # ys"] by simp

lemma no_adjacent_avail_prev:
  "no_adjacent_avail st (xs @ a # b # ys) \<Longrightarrow> st b = EL_AVAILABLE \<Longrightarrow> st a \<noteq> EL_AVAILABLE"
  using no_adjacent_avail_join [of st xs a "b # ys"] by auto

lemma no_adjacent_avail_cong:
  "(\<And>x. x \<in> set bl \<Longrightarrow> st' x = st x) \<Longrightarrow> no_adjacent_avail st' bl = no_adjacent_avail st bl"
proof (induction bl rule: induct_list012)
  case 1 then show ?case by simp
next
  case (2 x) then show ?case by simp
next
  case (3 x y zs) then show ?case by auto
qed

subsection \<open>Allocation keeps the invariant\<close>

lemma heap_struct_block:
  assumes "heap_struct s as us bl" and "b \<in> set bl"
  shows "block_in_heap s b" and "b \<noteq> NULL"
    and "b \<noteq> beg (the_list avail s)" "b \<noteq> end_p (the_list avail s)"
    and "b \<noteq> beg (the_list used s)" "b \<noteq> end_p (the_list used s)"
proof -
  from assms show inh: "block_in_heap s b"
    by (auto simp: heap_struct_def dest: tiled_block_in_heap)
  then show "b \<noteq> NULL" by (simp add: block_in_heap_def)
  from assms(1) have "sentinels_outside s" by (simp add: heap_struct_def)
  from sentinel_not_block [OF this inh]
  show "b \<noteq> beg (the_list avail s)" "b \<noteq> end_p (the_list avail s)"
    "b \<noteq> beg (the_list used s)" "b \<noteq> end_p (the_list used s)" .
qed

lemma el_malloc_keeps_inv:
  assumes inv: "heap_inv s as us bl"
    and nw: "unat nbytes + unat EL_BLOCK_OVERHEAD < 2 ^ 64"
    and m: "el_malloc nbytes s = Some (p, s')"
  shows "(p = NULL \<and> s' = s) \<or>
     (\<exists>b bl'. b \<in> set as \<and> el_find_first_avail nbytes s = Some b \<and>
        p = b + sizeof_el_blockhead_t \<and> p \<noteq> NULL \<and> head_size s' b = nbytes \<and>
        heap_inv s' ((b + (nbytes + EL_BLOCK_OVERHEAD)) # remove1 b as) (b # us) bl')"
proof -
  from inv have hs: "heap_struct s as us bl" and na: "no_adjacent_avail (head_state s) bl"
    by (simp_all add: heap_inv_def)
  from hs have tl: "two_lists s as us" and so: "sentinels_outside s" and td: "tiled s bl"
    and sb: "set bl = set as \<union> set us" and mk: "marked s as us"
    and ca: "counted avail s as" and cu: "counted used s us"
    by (simp_all add: heap_struct_def)
  from tl have il: "is_list avail s as" by (simp add: two_lists_def)
  from el_find_first_avail_cases [OF il, of nbytes]
  consider "el_find_first_avail nbytes s = Some NULL"
    | b where "b \<in> set as" "el_find_first_avail nbytes s = Some b" by blast
  then show ?thesis
  proof cases
    case 1
    with m show ?thesis by (simp add: el_malloc_def)
  next
    case 2
    let ?H = sizeof_el_blockhead_t and ?O = EL_BLOCK_OVERHEAD
    let ?sz = "head_size s b"
    from 2(1) sb have bbl: "b \<in> set bl" by simp
    note blk = heap_struct_block [OF hs bbl]
    from el_find_first_avail_fits [OF 2(2) blk(2)] have wfit: "nbytes + ?O \<le> ?sz" .
    have "unat (nbytes + 40) = unat nbytes + 40"
      using nw unat_add_lem [of nbytes 40] by (simp add: oh)
    with wfit have fit: "unat nbytes + 40 \<le> unat ?sz"
      by (simp add: word_le_nat_alt oh)
    define s1 where "s1 = el_remove_block avail b s"
    define nb where "nb = b + (nbytes + ?O)"
    define rem where "rem = ?sz - nbytes - ?O"
    define s2 where "s2 = set_foot_size (nb + (?H + rem)) rem
        (set_size nb rem (set_foot_size (b + (?H + nbytes)) nbytes (set_size b nbytes s1)))"
    define s6 where "s6 = el_add_block_front avail nb
        (set_state nb EL_AVAILABLE (el_add_block_front used b (set_state b EL_USED s2)))"
    have inh1: "block_in_heap s1 b" using blk(1) by (simp add: s1_def)
    have wfit1: "nbytes + ?O \<le> head_size s1 b" using wfit by (simp add: s1_def)
    have sz1: "head_size s1 b = ?sz" by (simp add: s1_def)
    have sp: "snd (el_split_block b nbytes s1) = s2"
      unfolding el_split_block_fits [OF wfit1 inh1] by (simp add: s2_def nb_def rem_def sz1)
    from el_malloc_found(1) [OF 2(2) blk(2,1)] m
    have p: "p = b + ?H" and s': "s' = s6"
      by (simp_all add: s6_def sp [unfolded s1_def] nb_def s1_def)
    from bbl obtain xs ys where bl: "bl = xs @ b # ys" by (auto simp: in_set_conv_decomp)
    have td1: "tiled s1 (xs @ b # ys)" using td bl by (simp add: s1_def)
    have fit1: "unat nbytes + 40 \<le> unat (head_size s1 b)" using fit by (simp add: s1_def)
    from split_tiled [OF td1 fit1]
    have td2: "tiled s2 (xs @ b # nb # ys)" and nbn: "nb \<notin> set bl" and inh2: "block_in_heap s2 nb"
      by (simp_all add: s2_def nb_def rem_def sz1 bl)
    \<comment> \<open>the two lists\<close>
    from two_lists_distinct [OF tl] have das: "distinct as" and dus: "distinct us" by simp_all
    from two_lists_disjoint [OF tl] 2(1) have bus: "b \<notin> set us" by auto
    have brm: "b \<notin> set (remove1 b as)" using das by simp
    have tl2: "two_lists s2 (remove1 b as) us"
      using two_lists_remove_avail [OF tl 2(1)] by (simp add: s2_def s1_def)
    have bounds: "the_list l s2 = the_list l s1" for l by (simp add: s2_def)
    have sent2: "beg (the_list l s2) = beg (the_list l s)" "end_p (the_list l s2) = end_p (the_list l s)" for l
      by (simp_all add: s2_def s1_def)
    have tl4: "two_lists (el_add_block_front used b (set_state b EL_USED s2)) (remove1 b as) (b # us)"
      using tl2 brm bus blk(3-6)
      by (intro two_lists_add_front_used) (simp_all add: nodes_def sent2)
    have so2: "sentinels_outside s2" using so by (simp add: s2_def s1_def)
    note snb = sentinel_not_block [OF so2 inh2]
    from nbn sb bbl have nbas: "nb \<notin> set as" "nb \<notin> set us" "nb \<noteq> b" by auto
    then have nbrm: "nb \<notin> set (remove1 b as)" by (auto dest: notin_set_remove1)
    have tl6: "two_lists s6 (nb # remove1 b as) (b # us)"
      unfolding s6_def using tl4 nbrm nbas snb
      by (intro two_lists_add_front_avail) (simp_all add: nodes_def)
    \<comment> \<open>the other parts\<close>
    have so6: "sentinels_outside s6" using so2 by (simp add: s6_def)
    have td6: "tiled s6 (xs @ b # nb # ys)" using td2 by (simp add: s6_def)
    have sb6: "set (xs @ b # nb # ys) = set (nb # remove1 b as) \<union> set (b # us)"
      using sb bl das 2(1) by auto
    have mk2: "marked s2 (remove1 b as) us"
      using marked_remove(1) [OF mk] by (simp add: s2_def s1_def)
    have mk6: "marked s6 (nb # remove1 b as) (b # us)"
      unfolding s6_def using mk2 brm nbas
      by (simp add: marked_set_state_avail marked_set_state_used)
    have ca2: "counted avail s2 (remove1 b as)"
      using counted_remove [OF ca 2(1)] brm nbrm
      by (simp add: s2_def s1_def counted_set_size)
    have ca6: "counted avail s6 (nb # remove1 b as)"
      unfolding s6_def using ca2 by (intro counted_add_front) simp
    have cu2: "counted used s2 us"
      using cu bus nbas by (simp add: s2_def s1_def counted_set_size)
    have cu6: "counted used s6 (b # us)"
      unfolding s6_def using counted_add_front [of used "set_state b EL_USED s2" us b] cu2
      by simp
    have hs6: "heap_struct s6 (nb # remove1 b as) (b # us) (xs @ b # nb # ys)"
      using tl6 so6 td6 sb6 mk6 ca6 cu6 by (simp add: heap_struct_def)
    \<comment> \<open>no two adjacent available blocks\<close>
    have st6: "head_state s6 = (head_state s)(b := EL_USED, nb := EL_AVAILABLE)"
      by (simp add: s6_def s2_def s1_def)
    have bav: "head_state s b = EL_AVAILABLE" using marked_avail [OF mk 2(1)] .
    have used_ne: "EL_USED \<noteq> EL_AVAILABLE" by (simp add: EL_USED_def EL_AVAILABLE_def)
    from na bl have na0: "no_adjacent_avail (head_state s) xs" "no_adjacent_avail (head_state s) ys"
      "ys \<noteq> [] \<longrightarrow> head_state s (hd ys) \<noteq> EL_AVAILABLE"
      using bav by (simp_all add: no_adjacent_avail_join)
    from tiled_distinct [OF td2] have d2: "distinct (xs @ b # nb # ys)" .
    have nax: "no_adjacent_avail (head_state s6) xs"
      using na0(1) d2 by (subst no_adjacent_avail_cong [of xs _ "head_state s"]) (auto simp: st6)
    have nay: "no_adjacent_avail (head_state s6) ys"
      using na0(2) d2 by (subst no_adjacent_avail_cong [of ys _ "head_state s"]) (auto simp: st6)
    have hdy: "ys \<noteq> [] \<longrightarrow> head_state s6 (hd ys) \<noteq> EL_AVAILABLE"
    proof
      assume "ys \<noteq> []"
      then have "hd ys \<in> set ys" by simp
      with d2 have "hd ys \<noteq> b" "hd ys \<noteq> nb" by auto
      with na0(3) \<open>ys \<noteq> []\<close> show "head_state s6 (hd ys) \<noteq> EL_AVAILABLE" by (simp add: st6)
    qed
    have b6: "head_state s6 b \<noteq> EL_AVAILABLE" using nbas(3) used_ne by (simp add: st6)
    have "no_adjacent_avail (head_state s6) (nb # ys)"
      using nay hdy by (cases ys) auto
    then have "no_adjacent_avail (head_state s6) (xs @ b # nb # ys)"
      using nax b6 by (simp add: no_adjacent_avail_split_at)
    with hs6 have "heap_inv s6 (nb # remove1 b as) (b # us) (xs @ b # nb # ys)"
      by (simp add: heap_inv_def)
    then have hi: "heap_inv s' ((b + (nbytes + ?O)) # remove1 b as) (b # us) (xs @ b # nb # ys)"
      by (simp add: s' nb_def)
    have pn: "p \<noteq> NULL" using block_in_heap_payload [OF blk(1)] p by simp
    have sz6: "head_size s' b = nbytes" using nbas(3) by (simp add: s' s6_def s2_def s1_def)
    show ?thesis
      by (intro disjI2 exI [of _ b] exI [of _ "xs @ b # nb # ys"] conjI)
         (rule 2(1), rule 2(2), rule p, rule pn, rule sz6, rule hi)
  qed
qed

subsection \<open>Merging two blocks of the tiling\<close>

lemma el_merge_block_with_above_same [simp]:
  "head_state (el_merge_block_with_above lo s) = head_state s"
  "heap_start (el_merge_block_with_above lo s) = heap_start s"
  "heap_end (el_merge_block_with_above lo s) = heap_end s"
  "beg (the_list l (el_merge_block_with_above lo s)) = beg (the_list l s)"
  "end_p (the_list l (el_merge_block_with_above lo s)) = end_p (the_list l s)"
  by (simp_all add: el_merge_block_with_above_def Let_def)

lemma el_merge_block_with_above_noop:
  "lo = NULL \<or> head_state s lo \<noteq> EL_AVAILABLE \<or> el_block_above s lo = NULL \<or>
   head_state s (el_block_above s lo) \<noteq> EL_AVAILABLE \<Longrightarrow>
   el_merge_block_with_above lo s = s"
  by (auto simp: el_merge_block_with_above_def Let_def)

lemma merge_arith:
  fixes lo hi szl szh he :: "64 word"
  assumes "unat hi = unat lo + unat szl + 40" and "unat hi + unat szh + 40 \<le> unat he"
  shows "unat (szl + szh + 40) = unat szl + unat szh + 40"
    and "hi = lo + (szl + 40)"
    and "lo + (32 + (szl + szh + 40)) = hi + (32 + szh)"
proof -
  have he: "unat he < 2 ^ 64" using unsigned_less [of he] by simp
  have 1: "unat (szl + szh) = unat szl + unat szh"
    using assms he unat_add_lem [of szl szh] by simp
  then show "unat (szl + szh + 40) = unat szl + unat szh + 40"
    using assms he unat_add_lem [of "szl + szh" 40] by simp
  have 2: "unat (szl + 40) = unat szl + 40"
    using assms he unat_add_lem [of szl 40] by simp
  then have "unat (lo + (szl + 40)) = unat lo + unat szl + 40"
    using assms he unat_add_lem [of lo "szl + 40"] by simp
  with assms(1) show 3: "hi = lo + (szl + 40)" by (simp add: word_unat_eq_iff)
  show "lo + (32 + (szl + szh + 40)) = hi + (32 + szh)" unfolding 3 by simp
qed

lemma merge_tiled:
  assumes td: "tiled s (xs @ lo # hi # ys)"
    and sz': "head_size s' = (head_size s)(lo := head_size s lo + head_size s hi + EL_BLOCK_OVERHEAD)"
    and ft': "foot_size s' = (foot_size s)(el_get_footer s hi := head_size s lo + head_size s hi + EL_BLOCK_OVERHEAD)"
    and bd: "heap_start s' = heap_start s" "heap_end s' = heap_end s"
  shows "tiled s' (xs @ lo # ys)"
proof -
  let ?sz = "head_size s" and ?e = "unat (heap_end s)"
  let ?n = "?sz lo + ?sz hi + EL_BLOCK_OVERHEAD"
  from td have t: "tiles ?sz (unat (heap_start s)) (xs @ lo # hi # ys) ?e"
    and hp: "0 < unat (heap_start s)"
    and ft: "list_all (\<lambda>c. foot_size s (el_get_footer s c) = ?sz c) (xs @ lo # hi # ys)"
    by (simp_all add: tiled_def)
  from tiles_distinct [OF t] have d: "distinct (xs @ lo # hi # ys)" .
  from t obtain m where t1: "tiles ?sz (unat (heap_start s)) xs m"
    and t2: "tiles ?sz m (lo # hi # ys) ?e" by (auto simp: tiles_append)
  from t2 have ml: "m = unat lo" and uh: "unat hi = unat lo + unat (?sz lo) + 40"
    and t3: "tiles ?sz (unat hi + unat (?sz hi) + 40) ys ?e" by (simp_all add: oh)
  from tiles_le [OF t3] have le: "unat hi + unat (?sz hi) + 40 \<le> ?e" .
  note ar = merge_arith [OF uh le]
  have un: "unat ?n = unat (?sz lo) + unat (?sz hi) + 40" using ar(1) by (simp add: oh)
  have t1': "tiles (head_size s') (unat (heap_start s)) xs m"
    using t1 d by (subst tiles_cong [of xs _ ?sz]) (auto simp: sz')
  have t3': "tiles (head_size s') (unat hi + unat (?sz hi) + 40) ys ?e"
    using t3 d by (subst tiles_cong [of ys _ ?sz]) (auto simp: sz')
  have e1: "unat lo + unat (head_size s' lo) + unat EL_BLOCK_OVERHEAD = unat hi + unat (?sz hi) + 40"
    using un uh by (simp add: sz' oh)
  have "tiles (head_size s') (unat lo) (lo # ys) ?e"
    unfolding tiles.simps e1 using t3' by simp
  with t1' ml have tl: "tiles (head_size s') (unat (heap_start s')) (xs @ lo # ys) (unat (heap_end s'))"
    by (auto simp: tiles_append bd)
  \<comment> \<open>the footers\<close>
  have hin: "hi \<in> set (xs @ lo # hi # ys)" by simp
  note hinh = tiled_block_in_heap [OF td hin]
  have ufh: "unat (el_get_footer s hi) = unat hi + 32 + unat (?sz hi)"
    by (rule block_in_heap_unat_footer [OF hinh])
  have gl: "el_get_footer s' lo = el_get_footer s hi"
    using ar(3) by (simp add: el_get_footer_def sz' oh)
  have fl: "foot_size s' (el_get_footer s' lo) = head_size s' lo"
    by (simp add: gl ft' sz')
  have fo: "foot_size s' (el_get_footer s' c) = head_size s' c"
    if c: "c \<in> set xs \<union> set ys" for c
  proof -
    from c have cin: "c \<in> set (xs @ lo # hi # ys)" by auto
    from c d have cne: "c \<noteq> lo" "c \<noteq> hi" by auto
    note cinh = tiled_block_in_heap [OF td cin]
    have uc: "unat (el_get_footer s c) = unat c + 32 + unat (?sz c)"
      by (rule block_in_heap_unat_footer [OF cinh])
    have xs_lt: "\<And>x. x \<in> set xs \<Longrightarrow> unat x + unat (?sz x) + 40 \<le> unat lo"
      using tiles_before [OF t] by (simp add: oh)
    have ys_gt: "\<And>y. y \<in> set ys \<Longrightarrow> unat hi + unat (?sz hi) + 40 \<le> unat y"
      using tiles_after [of ?sz _ "xs @ [lo]" hi ys ?e] t by (simp add: oh)
    have "unat (el_get_footer s c) \<noteq> unat (el_get_footer s hi)"
      using c xs_lt [of c] ys_gt [of c] uc ufh uh by auto
    then have "el_get_footer s c \<noteq> el_get_footer s hi" by metis
    moreover have "el_get_footer s' c = el_get_footer s c"
      using cne by (simp add: el_get_footer_def sz')
    moreover have "foot_size s (el_get_footer s c) = ?sz c"
      using ft cin by (auto simp: list_all_iff)
    ultimately show ?thesis using cne by (simp add: ft' sz')
  qed
  have "list_all (\<lambda>c. foot_size s' (el_get_footer s' c) = head_size s' c) (xs @ lo # ys)"
    using fl fo by (auto simp: list_all_iff)
  with tl hp show ?thesis by (simp add: tiled_def bd)
qed

lemma counted_cong:
  assumes "the_list l s' = the_list l s" and "\<And>b. b \<in> set bs \<Longrightarrow> head_size s' b = head_size s b"
  shows "counted l s' bs = counted l s bs"
proof -
  have "map (\<lambda>b. head_size s' b + EL_BLOCK_OVERHEAD) bs = map (\<lambda>b. head_size s b + EL_BLOCK_OVERHEAD) bs"
    using assms(2) by (intro map_cong refl) simp
  then show ?thesis unfolding counted_def assms(1) by (simp only:)
qed

lemma merge_struct:
  assumes hs: "heap_struct s as us (xs @ lo # hi # ys)"
    and lo: "lo \<in> set as" and hi: "hi \<in> set as"
  shows "heap_struct (el_merge_block_with_above lo s)
           (lo # remove1 hi (remove1 lo as)) us (xs @ lo # ys)"
proof -
  let ?s' = "el_merge_block_with_above lo s"
  let ?bl = "xs @ lo # hi # ys"
  let ?as' = "lo # remove1 hi (remove1 lo as)"
  let ?n = "head_size s lo + head_size s hi + EL_BLOCK_OVERHEAD"
  from hs have tl: "two_lists s as us" and so: "sentinels_outside s" and td: "tiled s ?bl"
    and sb: "set ?bl = set as \<union> set us" and mk: "marked s as us"
    and ca: "counted avail s as" and cu: "counted used s us"
    by (simp_all add: heap_struct_def)
  from tiled_distinct [OF td] have d: "distinct ?bl" .
  then have ne: "lo \<noteq> hi" by auto
  have "lo \<in> set ?bl" "hi \<in> set ?bl" by simp_all
  note bl = heap_struct_block [OF hs \<open>lo \<in> set ?bl\<close>] and bh = heap_struct_block [OF hs \<open>hi \<in> set ?bl\<close>]
  have ab: "el_block_above s lo = hi"
    using el_block_above_tiled [OF td refl] by simp
  note mg = el_merge_block_with_above_merges
    [OF tl lo hi ne bl(2) bh(2) marked_avail [OF mk lo] marked_avail [OF mk hi] ab]
  from two_lists_distinct [OF tl] have das: "distinct as" by simp
  from two_lists_disjoint [OF tl] lo hi have lus: "lo \<notin> set us" "hi \<notin> set us" by auto
  have so': "sentinels_outside ?s'"
    using so by (simp add: sentinels_outside_def outside_region_def)
  have td': "tiled ?s' (xs @ lo # ys)"
    by (rule merge_tiled [OF td mg(2) mg(3) mg(5) mg(6)])
  have r1: "set (remove1 hi (remove1 lo as)) = set as - {lo, hi}"
    using das by (auto simp: set_remove1_eq)
  have sa': "set ?as' = set as - {hi}"
    unfolding list.set r1 using lo ne by blast
  have "set (xs @ lo # ys) = set ?bl - {hi}" using d by auto
  also have "\<dots> = (set as - {hi}) \<union> set us" unfolding sb using lus by blast
  finally have sb': "set (xs @ lo # ys) = set ?as' \<union> set us" unfolding sa' .
  have "\<And>b. b \<in> set ?as' \<Longrightarrow> head_state s b = EL_AVAILABLE"
    unfolding sa' using mk by (simp add: marked_def list_all_iff)
  moreover have "\<And>b. b \<in> set us \<Longrightarrow> head_state s b = EL_USED"
    using mk by (simp add: marked_def list_all_iff)
  ultimately have mk': "marked ?s' ?as' us"
    unfolding marked_def list_all_iff el_merge_block_with_above_same by blast
  \<comment> \<open>the counters\<close>
  have hi1: "hi \<in> set (remove1 lo as)" using hi ne by simp
  have la: "length (remove1 lo as) = length as - 1" using lo by (simp add: length_remove1)
  have lb: "length (remove1 hi (remove1 lo as)) = length (remove1 lo as) - 1"
    using hi1 by (simp add: length_remove1)
  have lc: "0 < length (remove1 lo as)" using hi1 by (rule length_pos_if_in_set)
  have len: "length as = Suc (Suc (length (remove1 hi (remove1 lo as))))"
    using la lb lc by arith
  have l': "length_l (the_list avail ?s') = of_nat (length ?as')"
    using ca len by (simp add: mg(7) counted_def)
  let ?f = "\<lambda>b. head_size s b + EL_BLOCK_OVERHEAD"
  have s1: "sum_list (map ?f as) = ?f lo + sum_list (map ?f (remove1 lo as))"
    using lo by (rule sum_list_map_remove1)
  have s2: "sum_list (map ?f (remove1 lo as)) = ?f hi + sum_list (map ?f (remove1 hi (remove1 lo as)))"
    using hi1 by (rule sum_list_map_remove1)
  have lo_rest: "lo \<notin> set (remove1 hi (remove1 lo as))"
    unfolding r1 by simp
  have s3: "map (\<lambda>b. head_size ?s' b + EL_BLOCK_OVERHEAD) (remove1 hi (remove1 lo as)) =
            map ?f (remove1 hi (remove1 lo as))"
    using lo_rest by (intro map_cong refl) (auto simp: mg(2))
  have "sum_list (map (\<lambda>b. head_size ?s' b + EL_BLOCK_OVERHEAD) ?as') =
        (?n + EL_BLOCK_OVERHEAD) + sum_list (map ?f (remove1 hi (remove1 lo as)))"
    unfolding list.map sum_list.Cons s3 by (simp add: mg(2))
  also have "\<dots> = sum_list (map ?f as)" unfolding s1 s2 by simp
  finally have b': "bytes (the_list avail ?s') = sum_list (map (\<lambda>b. head_size ?s' b + EL_BLOCK_OVERHEAD) ?as')"
    using ca by (simp add: mg(8) counted_def)
  from l' b' have ca': "counted avail ?s' ?as'" by (simp add: counted_def)
  have cu': "counted used ?s' us"
    using cu lus by (subst counted_cong [of used _ s]) (auto simp: mg(9) mg(2))
  from mg(1) so' td' sb' mk' ca' cu' show ?thesis by (simp add: heap_struct_def)
qed

subsection \<open>Release keeps the invariant\<close>

text \<open>The first three steps of \<open>el_free\<close>: the block moves from the used list to the
  front of the available list.\<close>

lemma el_free_moves:
  assumes hs: "heap_struct s as us bl" and bus: "b \<in> set us"
  defines "s3 \<equiv> el_add_block_front avail b (set_state b EL_AVAILABLE (el_remove_block used b s))"
  shows "heap_struct s3 (b # as) (remove1 b us) bl"
    and "head_state s3 = (head_state s)(b := EL_AVAILABLE)"
proof -
  from hs have tl: "two_lists s as us" and so: "sentinels_outside s" and td: "tiled s bl"
    and sb: "set bl = set as \<union> set us" and mk: "marked s as us"
    and ca: "counted avail s as" and cu: "counted used s us"
    by (simp_all add: heap_struct_def)
  from bus sb have bbl: "b \<in> set bl" by simp
  note blk = heap_struct_block [OF hs bbl]
  from two_lists_distinct [OF tl] have das: "distinct as" and dus: "distinct us" by simp_all
  from two_lists_disjoint [OF tl] bus have bas: "b \<notin> set as" by auto
  have brm: "b \<notin> set (remove1 b us)" using dus by simp
  let ?s2 = "set_state b EL_AVAILABLE (el_remove_block used b s)"
  have tl2: "two_lists ?s2 as (remove1 b us)"
    using two_lists_remove_used [OF tl bus] by simp
  have tl3: "two_lists s3 (b # as) (remove1 b us)"
    unfolding s3_def using tl2 bas brm blk(3-6)
    by (intro two_lists_add_front_avail) (simp_all add: nodes_def)
  have so3: "sentinels_outside s3" using so by (simp add: s3_def)
  have td3: "tiled s3 bl" using td by (simp add: s3_def)
  have sb3: "set bl = set (b # as) \<union> set (remove1 b us)"
    using sb bus dus by auto
  have mk3: "marked s3 (b # as) (remove1 b us)"
    unfolding s3_def using marked_remove(2) [OF mk, of b] brm
    by (simp add: marked_set_state_avail)
  have ca3: "counted avail s3 (b # as)"
    unfolding s3_def using ca by (intro counted_add_front) simp
  have cu3: "counted used s3 (remove1 b us)"
    using counted_remove [OF cu bus] by (simp add: s3_def)
  from tl3 so3 td3 sb3 mk3 ca3 cu3 show "heap_struct s3 (b # as) (remove1 b us) bl"
    by (simp add: heap_struct_def)
  show "head_state s3 = (head_state s)(b := EL_AVAILABLE)"
    by (simp add: s3_def)
qed

lemma avail_state_in_avail:
  assumes hs: "heap_struct s as us bl" and c: "c \<in> set bl"
    and st: "head_state s c = EL_AVAILABLE"
  shows "c \<in> set as"
proof (rule ccontr)
  assume "c \<notin> set as"
  with hs c have "c \<in> set us" by (auto simp: heap_struct_def)
  with hs have "head_state s c = EL_USED" by (auto simp: heap_struct_def dest: marked_used)
  with st show False by (simp add: EL_USED_def EL_AVAILABLE_def)
qed

text \<open>The first merge, of the released block with the block above it.\<close>

lemma merge_up:
  assumes hs: "heap_struct s as us (xs @ b # ys)" and bas: "b \<in> set as"
    and na: "no_adjacent_avail (head_state s) ys"
  shows "\<exists>as' ys'. heap_struct (el_merge_block_with_above b s) as' us (xs @ b # ys') \<and>
           b \<in> set as' \<and> no_adjacent_avail (head_state s) (b # ys')"
proof -
  from hs have td: "tiled s (xs @ b # ys)" by (simp add: heap_struct_def)
  note ab = el_block_above_tiled [OF td refl]
  show ?thesis
  proof (cases ys)
    case Nil
    with ab have "el_merge_block_with_above b s = s"
      by (simp add: el_merge_block_with_above_noop)
    with hs bas Nil show ?thesis
      by (intro exI [of _ as] exI [of _ "[]"]) simp
  next
    case (Cons c cs)
    with ab have abc: "el_block_above s b = c" by simp
    show ?thesis
    proof (cases "head_state s c = EL_AVAILABLE")
      case True
      have "c \<in> set (xs @ b # ys)" using Cons by simp
      from avail_state_in_avail [OF hs this True] have cas: "c \<in> set as" .
      from merge_struct [OF hs [unfolded Cons] bas cas]
      have 1: "heap_struct (el_merge_block_with_above b s) (b # remove1 c (remove1 b as)) us (xs @ b # cs)" .
      have "no_adjacent_avail (head_state s) (b # cs)"
        using na True unfolding Cons by (cases cs) auto
      with 1 show ?thesis by (intro exI [of _ "b # remove1 c (remove1 b as)"] exI [of _ cs]) simp
    next
      case False
      with abc have "el_merge_block_with_above b s = s"
        by (simp add: el_merge_block_with_above_noop)
      moreover have "no_adjacent_avail (head_state s) (b # ys)"
        using na False unfolding Cons by simp
      ultimately show ?thesis using hs bas
        by (intro exI [of _ as] exI [of _ ys]) simp
    qed
  qed
qed

text \<open>The second merge, of the block below with the released block.\<close>

lemma merge_down:
  assumes hs: "heap_struct s as us (xs @ b # ys)" and bas: "b \<in> set as"
    and nax: "no_adjacent_avail (head_state s) xs"
    and nay: "no_adjacent_avail (head_state s) (b # ys)"
  shows "\<exists>as' bl'. heap_struct (el_merge_block_with_above (el_block_below s b) s) as' us bl' \<and>
           no_adjacent_avail (head_state s) bl'"
proof -
  let ?st = "head_state s"
  from hs have td: "tiled s (xs @ b # ys)" and mk: "marked s as us"
    by (simp_all add: heap_struct_def)
  note bl = el_block_below_tiled [OF td refl]
  have bav: "?st b = EL_AVAILABLE" using marked_avail [OF mk bas] .
  show ?thesis
  proof (cases xs rule: rev_cases)
    case Nil
    with bl have "el_merge_block_with_above (el_block_below s b) s = s"
      by (simp add: el_merge_block_with_above_noop)
    with hs nay Nil show ?thesis
      by (intro exI [of _ as] exI [of _ "b # ys"]) simp
  next
    case (snoc xs' a)
    with bl have bla: "el_block_below s b = a" by simp
    from hs snoc have hs': "heap_struct s as us (xs' @ a # b # ys)" by simp
    from nax snoc have nax': "no_adjacent_avail ?st xs'"
      and lst: "xs' \<noteq> [] \<longrightarrow> \<not> (?st (last xs') = EL_AVAILABLE \<and> ?st a = EL_AVAILABLE)"
      using no_adjacent_avail_join [of ?st xs' a "[]"] by simp_all
    from nay bav have nay': "no_adjacent_avail ?st ys"
      and hdy: "ys \<noteq> [] \<longrightarrow> ?st (hd ys) \<noteq> EL_AVAILABLE"
      using no_adjacent_avail_join [of ?st "[]" b ys] by simp_all
    show ?thesis
    proof (cases "?st a = EL_AVAILABLE")
      case True
      have "a \<in> set (xs' @ a # b # ys)" by simp
      from avail_state_in_avail [OF hs' this True] have aas: "a \<in> set as" .
      from merge_struct [OF hs' aas bas]
      have 1: "heap_struct (el_merge_block_with_above a s) (a # remove1 b (remove1 a as)) us (xs' @ a # ys)" .
      have "no_adjacent_avail ?st (xs' @ a # ys)"
        unfolding no_adjacent_avail_join [of ?st xs' a ys] using nax' nay' lst hdy by simp
      with 1 show ?thesis unfolding bla
        by (intro exI [of _ "a # remove1 b (remove1 a as)"] exI [of _ "xs' @ a # ys"]) simp
    next
      case False
      then have "el_merge_block_with_above a s = s"
        by (simp add: el_merge_block_with_above_noop)
      moreover have "no_adjacent_avail ?st (xs' @ a # b # ys)"
        unfolding no_adjacent_avail_split_at [of ?st a xs' "b # ys", OF False] using nax' nay by simp
      ultimately show ?thesis using hs' unfolding bla
        by (intro exI [of _ as] exI [of _ "xs' @ a # b # ys"]) simp
    qed
  qed
qed

theorem el_free_keeps_inv:
  assumes inv: "heap_inv s as us bl" and bus: "b \<in> set us"
  shows "\<exists>as' bl'. heap_inv (el_free (b + sizeof_el_blockhead_t) s) as' (remove1 b us) bl'"
proof -
  from inv have hs: "heap_struct s as us bl" and na: "no_adjacent_avail (head_state s) bl"
    by (simp_all add: heap_inv_def)
  define s3 where "s3 = el_add_block_front avail b (set_state b EL_AVAILABLE (el_remove_block used b s))"
  define s4 where "s4 = el_merge_block_with_above b s3"
  have fr: "el_free (b + sizeof_el_blockhead_t) s = el_merge_block_with_above (el_block_below s4 b) s4"
    by (simp add: el_free_eq Let_def s3_def s4_def)
  note mv = el_free_moves [OF hs bus, folded s3_def]
  from hs bus have "b \<in> set bl" by (simp add: heap_struct_def)
  then obtain xs ys where bl: "bl = xs @ b # ys" by (auto simp: in_set_conv_decomp)
  from hs have "distinct bl" by (auto simp: heap_struct_def dest: tiled_distinct)
  with bl have bx: "b \<notin> set xs" and by': "b \<notin> set ys" by auto
  from na bl have "no_adjacent_avail (head_state s) xs" "no_adjacent_avail (head_state s) ys"
    using no_adjacent_avail_join [of "head_state s" xs b ys] by simp_all
  note na0 = this
  have nax: "no_adjacent_avail (head_state s3) xs"
    using na0(1) bx by (subst no_adjacent_avail_cong [of xs _ "head_state s"]) (auto simp: mv(2))
  have nay: "no_adjacent_avail (head_state s3) ys"
    using na0(2) by' by (subst no_adjacent_avail_cong [of ys _ "head_state s"]) (auto simp: mv(2))
  have "b \<in> set (b # as)" by simp
  from merge_up [OF mv(1) [unfolded bl] this nay]
  obtain as4 ys4 where hs4: "heap_struct s4 as4 (remove1 b us) (xs @ b # ys4)"
    and b4: "b \<in> set as4" and na4: "no_adjacent_avail (head_state s3) (b # ys4)"
    unfolding s4_def by blast
  have st4: "head_state s4 = head_state s3" by (simp add: s4_def)
  from merge_down [OF hs4 b4] nax na4
  obtain as5 bl5 where "heap_struct (el_merge_block_with_above (el_block_below s4 b) s4) as5 (remove1 b us) bl5"
    and "no_adjacent_avail (head_state s4) bl5"
    unfolding st4 by blast
  then show ?thesis unfolding fr heap_inv_def el_merge_block_with_above_same by blast
qed

subsection \<open>Initialisation establishes the invariant\<close>

lemma el_init_sentinels:
  assumes "el_init start sz u heap s0 = Inr s"
  shows "beg (the_list avail s) = beg_actual (avail_actual s0)"
    and "end_p (the_list avail s) = end_actual (avail_actual s0)"
    and "beg (the_list used s) = beg_actual (used_actual s0)"
    and "end_p (the_list used s) = end_actual (used_actual s0)"
proof -
  from assms have h: "heap = start" and big: "\<not> sz < EL_BLOCK_OVERHEAD"
    by (auto simp: el_init_eq split: if_splits)
  from assms h big have s: "s = el_add_block_front avail heap
             (set_foot_size (heap + (sizeof_el_blockhead_t + (sz - EL_BLOCK_OVERHEAD))) (sz - EL_BLOCK_OVERHEAD)
               (set_state heap EL_AVAILABLE
                 (set_size heap (sz - EL_BLOCK_OVERHEAD)
                   (el_init_blocklist u used
                     (el_init_blocklist u avail
                       (s0\<lparr>heap_bytes := sz, heap_start := heap, heap_end := heap + sz\<rparr>))))))"
    by (simp add: el_init_eq)
  show "beg (the_list avail s) = beg_actual (avail_actual s0)"
    "end_p (the_list avail s) = end_actual (avail_actual s0)"
    "beg (the_list used s) = beg_actual (used_actual s0)"
    "end_p (the_list used s) = end_actual (used_actual s0)"
    by (simp_all add: s)
qed

lemma el_init_inv:
  assumes i: "el_init start sz u heap s0 = Inr s" and ok: "init_ok s0 heap sz"
  shows "heap_inv s [heap] [] [heap]"
proof -
  from ok have ap: "sentinels_apart s0 heap" and pos: "0 < unat heap"
    and nw: "unat heap + unat sz < 2 ^ 64"
    and out: "list_all (\<lambda>p. unat p < unat heap \<or> unat heap + unat sz \<le> unat p)
        [beg_actual (avail_actual s0), end_actual (avail_actual s0),
         beg_actual (used_actual s0), end_actual (used_actual s0)]"
    by (simp_all add: init_ok_def)
  note il = el_init_lists [OF i ap] and sn = el_init_sentinels [OF i]
  have ue: "unat (heap + sz) = unat heap + unat sz"
    using nw unat_add_lem [of heap sz] by simp
  from il(8) have big: "40 \<le> unat sz" by (simp add: oh word_less_nat_alt)
  then have us: "unat (sz - 40) = unat sz - 40"
    by (simp add: unat_sub word_le_nat_alt)
  have tl: "two_lists s [heap] []"
    using il(1,2) ap by (auto simp: two_lists_def nodes_def sn sentinels_apart_def)
  have so: "sentinels_outside s"
    using out by (simp add: sentinels_outside_def outside_region_def sn il(5,6) ue)
  have "tiles (head_size s) (unat (heap_start s)) [heap] (unat (heap_end s))"
    using big us by (simp add: il(3,5,6) ue oh)
  then have td: "tiled s [heap]"
    using pos il(9) by (simp add: tiled_def il(3,5))
  have mk: "marked s [heap] []" by (simp add: marked_def il(4))
  have ca: "counted avail s [heap]" by (simp add: counted_def il(3,10,11))
  have cu: "counted used s []" by (simp add: counted_def il(12,13))
  from tl so td mk ca cu show ?thesis by (simp add: heap_inv_def heap_struct_def)
qed

subsection \<open>The reachable states\<close>

theorem reach_nowrap_inv:
  "reach_nowrap s P \<Longrightarrow>
   \<exists>as us bl. heap_inv s as us bl \<and> P = (\<lambda>b. b + sizeof_el_blockhead_t) ` set us"
proof (induction rule: reach_nowrap.induct)
  case (init start sz u heap s0 s)
  from el_init_inv [OF this] show ?case
    by (intro exI [of _ "[heap]"] exI [of _ "[]"] exI [of _ "[heap]"]) simp
next
  case (malloc s P nbytes p s')
  then obtain as us bl where inv: "heap_inv s as us bl"
    and P: "P = (\<lambda>b. b + sizeof_el_blockhead_t) ` set us" by blast
  from el_malloc_keeps_inv [OF inv malloc(2,3)]
  consider "p = NULL" "s' = s"
    | b as' bl' where "b \<in> set as" "p = b + sizeof_el_blockhead_t" "p \<noteq> NULL"
        "heap_inv s' as' (b # us) bl'" by blast
  then show ?case
  proof cases
    case 1
    have e: "(if p = NULL then P else insert p P) = P" using 1(1) by simp
    show ?thesis unfolding e 1(2)
      by (intro exI [of _ as] exI [of _ us] exI [of _ bl] conjI) (rule inv, rule P)
  next
    case 2
    have e: "(if p = NULL then P else insert p P) = insert p P" using 2(3) by simp
    have i: "insert p P = (\<lambda>b. b + sizeof_el_blockhead_t) ` set (b # us)"
      using P 2(2) by simp
    show ?thesis unfolding e
      by (intro exI [of _ as'] exI [of _ "b # us"] exI [of _ bl'] conjI) (rule 2(4), rule i)
  qed
next
  case (free s P p)
  then obtain as us bl where inv: "heap_inv s as us bl"
    and P: "P = (\<lambda>b. b + sizeof_el_blockhead_t) ` set us" by blast
  from free(2) P obtain b where b: "b \<in> set us" and p: "p = b + sizeof_el_blockhead_t"
    by auto
  from el_free_keeps_inv [OF inv b] obtain as' bl'
    where inv': "heap_inv (el_free p s) as' (remove1 b us) bl'" unfolding p by blast
  from inv have "distinct us"
    by (auto simp: heap_inv_def heap_struct_def dest: two_lists_distinct)
  then have r: "set (remove1 b us) = set us - {b}" by simp
  have inj: "inj (\<lambda>b::addr. b + sizeof_el_blockhead_t)" by (simp add: inj_def)
  have img: "P - {p} = (\<lambda>b. b + sizeof_el_blockhead_t) ` set (remove1 b us)"
    unfolding P p r image_set_diff [OF inj] by simp
  show ?case
    by (intro exI [of _ as'] exI [of _ "remove1 b us"] exI [of _ bl'] conjI) (rule inv', rule img)
qed

subsection \<open>What the invariant says about the reachable states\<close>

text \<open>The members of the two lists carry the state of their list, and the length and
  bytes fields count them.\<close>

theorem reach_nowrap_lists:
  assumes "reach_nowrap s P"
  shows "\<exists>as us. is_list avail s as \<and> is_list used s us \<and>
           (\<forall>b \<in> set as. head_state s b = EL_AVAILABLE) \<and>
           (\<forall>b \<in> set us. head_state s b = EL_USED) \<and>
           length_l (the_list avail s) = of_nat (length as) \<and>
           length_l (the_list used s) = of_nat (length us) \<and>
           bytes (the_list avail s) = sum_list (map (\<lambda>b. head_size s b + EL_BLOCK_OVERHEAD) as) \<and>
           bytes (the_list used s) = sum_list (map (\<lambda>b. head_size s b + EL_BLOCK_OVERHEAD) us) \<and>
           P = (\<lambda>b. b + sizeof_el_blockhead_t) ` set us"
proof -
  from reach_nowrap_inv [OF assms] obtain as us bl where inv: "heap_inv s as us bl"
    and P: "P = (\<lambda>b. b + sizeof_el_blockhead_t) ` set us" by blast
  from inv have "two_lists s as us" "marked s as us" "counted avail s as" "counted used s us"
    by (simp_all add: heap_inv_def heap_struct_def)
  with P show ?thesis
    by (intro exI [of _ as] exI [of _ us])
       (simp add: two_lists_def marked_def counted_def list_all_iff)
qed

text \<open>Header and footer of every block record the same size, and the footer leads back
  to the header.\<close>

theorem reach_nowrap_footers:
  assumes "reach_nowrap s P"
  shows "\<exists>as us. is_list avail s as \<and> is_list used s us \<and>
           (\<forall>b \<in> set as \<union> set us.
              foot_size s (el_get_footer s b) = head_size s b \<and>
              el_get_header s (el_get_footer s b) = b)"
proof -
  from reach_nowrap_inv [OF assms] obtain as us bl where inv: "heap_inv s as us bl" by blast
  then have tl: "two_lists s as us" and td: "tiled s bl" and sb: "set bl = set as \<union> set us"
    by (simp_all add: heap_inv_def heap_struct_def)
  have "foot_size s (el_get_footer s b) = head_size s b \<and> el_get_header s (el_get_footer s b) = b"
    if "b \<in> set as \<union> set us" for b
    using tiled_footer [OF td, of b] that sb by (simp add: el_get_header_el_get_footer)
  with tl show ?thesis
    by (intro exI [of _ as] exI [of _ us]) (simp add: two_lists_def)
qed

text \<open>The block above an available block is a used block, or there is none.\<close>

theorem reach_nowrap_no_adjacent:
  assumes "reach_nowrap s P"
  shows "\<exists>as us. is_list avail s as \<and> is_list used s us \<and>
           (\<forall>b \<in> set as. el_block_above s b = NULL \<or> el_block_above s b \<in> set us)"
proof -
  from reach_nowrap_inv [OF assms] obtain as us bl where inv: "heap_inv s as us bl" by blast
  then have hs: "heap_struct s as us bl" and na: "no_adjacent_avail (head_state s) bl"
    by (simp_all add: heap_inv_def)
  then have tl: "two_lists s as us" and td: "tiled s bl" and sb: "set bl = set as \<union> set us"
    and mk: "marked s as us"
    by (simp_all add: heap_struct_def)
  have "el_block_above s b = NULL \<or> el_block_above s b \<in> set us" if b: "b \<in> set as" for b
  proof -
    from b sb have "b \<in> set bl" by simp
    then obtain xs ys where bl: "bl = xs @ b # ys" by (auto simp: in_set_conv_decomp)
    note ab = el_block_above_tiled [OF td bl]
    show ?thesis
    proof (cases ys)
      case Nil
      with ab show ?thesis by simp
    next
      case (Cons c cs)
      with ab have c: "el_block_above s b = c" by simp
      from na have "head_state s c \<noteq> EL_AVAILABLE"
        unfolding bl Cons using marked_avail [OF mk b] by (rule no_adjacent_avail_next)
      with marked_avail [OF mk, of c] have "c \<notin> set as" by blast
      moreover have "c \<in> set bl" unfolding bl Cons by simp
      ultimately show ?thesis using sb c by simp
    qed
  qed
  with tl show ?thesis
    by (intro exI [of _ as] exI [of _ us]) (simp add: two_lists_def)
qed

subsection \<open>The example run\<close>

lemma boot_init_ok: "init_ok boot 0x600000000000 4096"
  by (simp add: init_ok_def sentinels_apart_def boot_def)

lemma reach_nowrap_fresh: "reach_nowrap fresh {}"
  using step0 boot_init_ok by (rule reach_nowrap.init)

lemma reach_nowrap_st1: "reach_nowrap st1 {0x600000000020}"
  using reach_nowrap.malloc [OF reach_nowrap_fresh _ step1] by (simp add: oh)

lemma reach_nowrap_two_used: "reach_nowrap two_used {0x600000000020, 0x600000000050}"
  using reach_nowrap.malloc [OF reach_nowrap_st1 _ step_two_used] by (simp add: oh insert_commute)

lemma reach_nowrap_abc: "reach_nowrap abc {0x600000000050}"
  using reach_nowrap.free [OF reach_nowrap_two_used, of "0x600000000020"] by (simp add: step_abc)

subsection \<open>Splitting and allocation without wrap-around\<close>

text \<open>
  When the new size plus the overhead does not wrap, \<open>el_split_block\<close> refuses a block
  that is too small and changes nothing, and splits a block that is large enough: the
  block gets the new size in header and footer, the remainder lies directly above it
  with the rest of the bytes in header and footer, and no list, link or state changes.
\<close>

lemma el_split_block_nowrap:
  assumes nw: "unat n + unat EL_BLOCK_OVERHEAD < 2 ^ 64"
  shows "unat (head_size s b) < unat n + unat EL_BLOCK_OVERHEAD \<Longrightarrow>
           el_split_block b n s = (NULL, s)"
    and "unat n + unat EL_BLOCK_OVERHEAD \<le> unat (head_size s b) \<Longrightarrow> block_in_heap s b \<Longrightarrow>
           (\<exists>nb s'. el_split_block b n s = (nb, s') \<and>
              nb = b + (n + EL_BLOCK_OVERHEAD) \<and> nb \<noteq> NULL \<and> el_block_above s' b = nb \<and>
              head_size s' b = n \<and> foot_size s' (el_get_footer s' b) = n \<and>
              head_size s' nb = head_size s b - n - EL_BLOCK_OVERHEAD \<and>
              foot_size s' (el_get_footer s' nb) = head_size s b - n - EL_BLOCK_OVERHEAD \<and>
              the_list avail s' = the_list avail s \<and> the_list used s' = the_list used s \<and>
              head_next s' = head_next s \<and> head_prev s' = head_prev s \<and>
              head_state s' = head_state s)"
proof -
  have un: "unat (n + 40) = unat n + 40"
    using nw unat_add_lem [of n 40] by (simp add: oh)
  {
    assume "unat (head_size s b) < unat n + unat EL_BLOCK_OVERHEAD"
    then have "head_size s b < n + EL_BLOCK_OVERHEAD"
      using un by (simp add: word_less_nat_alt oh)
    then show "el_split_block b n s = (NULL, s)" by (simp add: el_split_block_eq)
  }
  {
    let ?sz = "head_size s b"
    let ?nb = "b + (n + EL_BLOCK_OVERHEAD)"
    let ?rem = "?sz - n - EL_BLOCK_OVERHEAD"
    assume fit: "unat n + unat EL_BLOCK_OVERHEAD \<le> unat ?sz" and inh: "block_in_heap s b"
    then have wfit: "n + EL_BLOCK_OVERHEAD \<le> ?sz"
      using un by (simp add: word_le_nat_alt oh)
    note sp = el_split_block_fits [OF wfit inh]
    note ab = block_in_heap_above [OF inh wfit]
    have "unat (n + 40) \<noteq> 0" using un by simp
    then have n40: "n + 40 \<noteq> 0" by (simp add: unat_eq_0)
    then have nbb: "?nb \<noteq> b" by (simp add: oh)
    have "unat n \<noteq> unat ?sz" using fit by (simp add: oh)
    then have nsz: "n \<noteq> ?sz" by auto
    have f2: "?nb + (sizeof_el_blockhead_t + ?rem) = b + (sizeof_el_blockhead_t + ?sz)"
      by (simp add: oh)
    have fne: "b + (sizeof_el_blockhead_t + ?sz) \<noteq> b + (sizeof_el_blockhead_t + n)"
      using nsz by simp
    define s' where "s' = set_foot_size (?nb + (sizeof_el_blockhead_t + ?rem)) ?rem
        (set_size ?nb ?rem (set_foot_size (b + (sizeof_el_blockhead_t + n)) n (set_size b n s)))"
    have e: "el_split_block b n s = (?nb, s')" by (simp add: sp s'_def)
    have hb: "head_size s' b = n" using nbb by (simp add: s'_def)
    have hn: "head_size s' ?nb = ?rem" by (simp add: s'_def)
    have fb: "foot_size s' (el_get_footer s' b) = n"
      unfolding el_get_footer_def Let_def hb using fne by (simp add: s'_def f2)
    have fn: "foot_size s' (el_get_footer s' ?nb) = ?rem"
      unfolding el_get_footer_def Let_def hn by (simp add: s'_def)
    have he: "heap_end s' = heap_end s" by (simp add: s'_def)
    have ba: "el_block_above s' b = ?nb"
      unfolding el_block_above_def Let_def hb he using ab(1) by simp
    have rest: "the_list avail s' = the_list avail s" "the_list used s' = the_list used s"
      "head_next s' = head_next s" "head_prev s' = head_prev s" "head_state s' = head_state s"
      by (simp_all add: s'_def)
    show "\<exists>nb s'. el_split_block b n s = (nb, s') \<and>
              nb = b + (n + EL_BLOCK_OVERHEAD) \<and> nb \<noteq> NULL \<and> el_block_above s' b = nb \<and>
              head_size s' b = n \<and> foot_size s' (el_get_footer s' b) = n \<and>
              head_size s' nb = head_size s b - n - EL_BLOCK_OVERHEAD \<and>
              foot_size s' (el_get_footer s' nb) = head_size s b - n - EL_BLOCK_OVERHEAD \<and>
              the_list avail s' = the_list avail s \<and> the_list used s' = the_list used s \<and>
              head_next s' = head_next s \<and> head_prev s' = head_prev s \<and>
              head_state s' = head_state s"
      by (intro exI [of _ ?nb] exI [of _ s'] conjI)
         (rule e, rule refl, rule ab(2), rule ba, rule hb, rule fb, rule hn, rule fn,
          rule rest(1), rule rest(2), rule rest(3), rule rest(4), rule rest(5))
  }
qed

text \<open>
  In a reachable state, a successful \<open>el_malloc\<close> with a request that does not wrap
  leaves the found block with the requested size, marked used, at the front of the used
  list, and the remainder marked available at the front of the available list.
\<close>

theorem el_malloc_nowrap:
  assumes r: "reach_nowrap s P" and nw: "unat nbytes + unat EL_BLOCK_OVERHEAD < 2 ^ 64"
    and m: "el_malloc nbytes s = Some (p, s')" and pn: "p \<noteq> NULL"
  shows "\<exists>b as us. is_list avail s as \<and> is_list used s us \<and>
           el_find_first_avail nbytes s = Some b \<and> p = b + sizeof_el_blockhead_t \<and>
           head_size s' b = nbytes \<and> foot_size s' (el_get_footer s' b) = nbytes \<and>
           head_state s' b = EL_USED \<and> is_list used s' (b # us) \<and>
           head_state s' (b + (nbytes + EL_BLOCK_OVERHEAD)) = EL_AVAILABLE \<and>
           is_list avail s' ((b + (nbytes + EL_BLOCK_OVERHEAD)) # remove1 b as)"
proof -
  from reach_nowrap_inv [OF r] obtain as us bl where inv: "heap_inv s as us bl" by blast
  then have tl: "two_lists s as us" by (simp add: heap_inv_def heap_struct_def)
  let ?nb = "\<lambda>b. b + (nbytes + EL_BLOCK_OVERHEAD)"
  from el_malloc_keeps_inv [OF inv nw m] pn obtain b bl'
    where f: "el_find_first_avail nbytes s = Some b" and p: "p = b + sizeof_el_blockhead_t"
      and hb: "head_size s' b = nbytes"
      and inv': "heap_inv s' (?nb b # remove1 b as) (b # us) bl'" by blast
  from inv' have tl': "two_lists s' (?nb b # remove1 b as) (b # us)"
    and mk': "marked s' (?nb b # remove1 b as) (b # us)"
    and td': "tiled s' bl'" and sb': "set bl' = set (?nb b # remove1 b as) \<union> set (b # us)"
    by (simp_all add: heap_inv_def heap_struct_def)
  have "b \<in> set bl'" using sb' by simp
  from tiled_footer [OF td' this] have fb: "foot_size s' (el_get_footer s' b) = nbytes"
    by (simp add: hb)
  have su: "head_state s' b = EL_USED" using marked_used [OF mk', of b] by simp
  have sa: "head_state s' (?nb b) = EL_AVAILABLE" using marked_avail [OF mk', of "?nb b"] by simp
  from tl have l: "is_list avail s as" "is_list used s us" by (simp_all add: two_lists_def)
  from tl' have l': "is_list avail s' (?nb b # remove1 b as)" "is_list used s' (b # us)"
    by (simp_all add: two_lists_def)
  show ?thesis
    by (intro exI [of _ b] exI [of _ as] exI [of _ us] conjI)
       (rule l(1), rule l(2), rule f, rule p, rule hb, rule fb, rule su, rule l'(2), rule sa,
        rule l'(1))
qed

section \<open>The claims\<close>

text \<open>
  Claim C1: for every request size, a successful \<open>el_malloc\<close> leaves the found block
  shrunk to the requested size, marked used and at the front of the used list, and the
  remainder marked available at the front of the available list.

  The code does not do this for a request whose sum with the overhead wraps around.
  After \<open>el_init\<close> and \<open>el_malloc(8)\<close>, the call \<open>el_malloc(2^64 - 40)\<close> finds the
  available block at 0x600000000030 (the threshold \<open>nbytes + EL_BLOCK_OVERHEAD\<close> is 0)
  and returns the address 0x600000000050, which is not \<open>NULL\<close>; afterwards that block
  still has payload size 4008, is marked available, and is the first node after the
  begin sentinel of the used list and of the available list alike.

  With a request that does not wrap, a successful call in a reachable state does what the
  claim says (theorem \<open>el_malloc_nowrap\<close>).
\<close>

theorem el_malloc_overflow_not_used:
  "el_init 0x600000000000 4096 12345 0x600000000000 boot = Inr fresh \<and>
   el_malloc 8 fresh = Some (0x600000000020, st1) \<and>
   el_find_first_avail 0xFFFFFFFFFFFFFFD8 st1 = Some 0x600000000030 \<and>
   el_malloc 0xFFFFFFFFFFFFFFD8 st1 = Some (0x600000000050, st2) \<and>
   head_size st2 0x600000000030 = 4008 \<and>
   head_state st2 0x600000000030 = EL_AVAILABLE \<and>
   head_next st2 (beg (the_list used st2)) = 0x600000000030 \<and>
   head_next st2 (beg (the_list avail st2)) = 0x600000000030"
proof -
  have f: "el_find_first_avail 0xFFFFFFFFFFFFFFD8 st1 = Some 0x600000000030"
    by (simp add: find_ev st1_def)
  have "head_size st2 0x600000000030 = 4008"
    "head_state st2 0x600000000030 = EL_AVAILABLE"
    "head_next st2 (beg (the_list used st2)) = 0x600000000030"
    "head_next st2 (beg (the_list avail st2)) = 0x600000000030"
    by (simp_all add: st2_def the_list_def el_consts)
  with step0 step1 step2 f show ?thesis by simp
qed



text \<open>
  Claim C3: \<open>el_split_block\<close> changes nothing and returns \<open>NULL\<close> when the block is
  smaller than the new size plus the overhead, and otherwise shrinks the block to the
  new size and returns a remainder block above it.

  The code does not do this for a new size whose sum with the overhead wraps around.
  In the split that \<open>el_malloc(2^64 - 40)\<close> performs after \<open>el_init\<close> and
  \<open>el_malloc(8)\<close>, the block at 0x600000000030 has payload size 4008, which is less
  than \<open>2^64 - 40\<close> plus 40; the call nevertheless returns that same block as the
  remainder, leaves its payload size at 4008 rather than the new size, and overwrites
  the footer of the used block below it (at 0x600000000028, size 8 before the call)
  with \<open>2^64 - 40\<close>.

  With a new size that does not wrap, the function does what the claim says (lemma
  \<open>el_split_block_nowrap\<close>).
\<close>

theorem el_split_block_overflow:
  "el_init 0x600000000000 4096 12345 0x600000000000 boot = Inr fresh \<and>
   el_malloc 8 fresh = Some (0x600000000020, st1) \<and>
   head_size (el_remove_block avail 0x600000000030 st1) 0x600000000030 = 4008 \<and>
   foot_size (el_remove_block avail 0x600000000030 st1) 0x600000000028 = 8 \<and>
   fst (el_split_block 0x600000000030 0xFFFFFFFFFFFFFFD8
          (el_remove_block avail 0x600000000030 st1)) = 0x600000000030 \<and>
   head_size (snd (el_split_block 0x600000000030 0xFFFFFFFFFFFFFFD8
          (el_remove_block avail 0x600000000030 st1))) 0x600000000030 = 4008 \<and>
   foot_size (snd (el_split_block 0x600000000030 0xFFFFFFFFFFFFFFD8
          (el_remove_block avail 0x600000000030 st1))) 0x600000000028 = 0xFFFFFFFFFFFFFFD8"
proof -
  have "head_size (el_remove_block avail 0x600000000030 st1) 0x600000000030 = 4008"
    "foot_size (el_remove_block avail 0x600000000030 st1) 0x600000000028 = 8"
    by (simp_all add: st1_def)
  moreover have "fst (el_split_block 0x600000000030 0xFFFFFFFFFFFFFFD8
          (el_remove_block avail 0x600000000030 st1)) = 0x600000000030"
    "head_size (snd (el_split_block 0x600000000030 0xFFFFFFFFFFFFFFD8
          (el_remove_block avail 0x600000000030 st1))) 0x600000000030 = 4008"
    "foot_size (snd (el_split_block 0x600000000030 0xFFFFFFFFFFFFFFD8
          (el_remove_block avail 0x600000000030 st1))) 0x600000000028 = 0xFFFFFFFFFFFFFFD8"
    by (simp_all add: ev st1_def)
  ultimately show ?thesis using step0 step1 by simp
qed

text \<open>
  Claim C4: whenever \<open>el_malloc\<close> returns \<open>NULL\<close> the whole state is unchanged; on a
  freshly initialised heap of \<open>U\<close> usable bytes, \<open>el_malloc(U + 1)\<close> returns \<open>NULL\<close>
  and leaves the heap unchanged.

  First part: in every state whose available list is well formed and holds blocks
  inside the region, \<open>el_malloc\<close> returns, and if it returns \<open>NULL\<close> the state is the
  state before the call. Second part: after a successful \<open>el_init\<close> of a region of
  \<open>sz\<close> bytes (with \<open>sz + 1\<close> representable), the usable bytes are
  \<open>sz - EL_BLOCK_OVERHEAD\<close>, and a request of one byte more returns \<open>NULL\<close> and the
  same state.
\<close>

theorem el_malloc_none_unchanged:
  "(is_list avail s bs \<and> (\<forall>b \<in> set bs. block_in_heap s b) \<longrightarrow>
      (\<exists>r. el_malloc nbytes s = Some r) \<and>
      (\<forall>s'. el_malloc nbytes s = Some (NULL, s') \<longrightarrow> s' = s)) \<and>
   (el_init start sz u heap s0 = Inr s1 \<and> sentinels_apart s0 heap \<and> unat sz + 1 < 2 ^ 64 \<longrightarrow>
      el_malloc (sz - EL_BLOCK_OVERHEAD + 1) s1 = Some (NULL, s1))"
proof (intro conjI impI allI)
  assume a: "is_list avail s bs \<and> (\<forall>b \<in> set bs. block_in_heap s b)"
  then show "\<exists>r. el_malloc nbytes s = Some r"
    using el_malloc_NULL_unchanged(1) by blast
  fix s' assume "el_malloc nbytes s = Some (NULL, s')"
  with a show "s' = s" using el_malloc_NULL_unchanged(2) by blast
next
  assume a: "el_init start sz u heap s0 = Inr s1 \<and> sentinels_apart s0 heap \<and> unat sz + 1 < 2 ^ 64"
  then have i: "el_init start sz u heap s0 = Inr s1" and sa: "sentinels_apart s0 heap" by simp_all
  note f = el_init_lists [OF i sa]
  from f(8) a have "\<not> sz - EL_BLOCK_OVERHEAD + 1 + EL_BLOCK_OVERHEAD \<le> sz - EL_BLOCK_OVERHEAD"
    using exhaust_threshold [of sz] by (simp add: el_consts)
  then have "el_find_first_avail (sz - EL_BLOCK_OVERHEAD + 1) s1 = Some NULL"
    by (simp add: el_find_first_avail_is_list [OF f(1)] f(3))
  then show "el_malloc (sz - EL_BLOCK_OVERHEAD + 1) s1 = Some (NULL, s1)"
    by (simp add: el_malloc_def)
qed

text \<open>
  The theorem at the state \<open>fresh\<close>: a request of 5000 bytes returns, and the request of
  4057 bytes (one more than the 4056 usable bytes) returns \<open>NULL\<close> and the state
  \<open>fresh\<close>.
\<close>

theorem el_malloc_none_unchanged_witness:
  "is_list avail fresh [0x600000000000] \<and>
   block_in_heap fresh 0x600000000000 \<and>
   el_init 0x600000000000 4096 12345 0x600000000000 boot = Inr fresh \<and>
   sentinels_apart boot 0x600000000000 \<and>
   (\<exists>r. el_malloc 5000 fresh = Some r) \<and>
   el_malloc 4057 fresh = Some (NULL, fresh)"
  using el_malloc_none_unchanged
    [of fresh "[0x600000000000]" 5000 "0x600000000000" 4096 12345 "0x600000000000" boot fresh]
    fresh_facts step0 boot_sentinels_apart
  by (simp add: el_consts)

text \<open>
  Claim C5: when a used block \<open>B\<close> lies between an available block \<open>A\<close> below and an
  available block \<open>C\<close> above, releasing \<open>B\<close> leaves one available block at \<open>A\<close> of
  payload size \<open>A.size + B.size + C.size + 2 * overhead\<close>. Its footer is the old footer
  of \<open>C\<close> and records the same size as its header, and the block above it is the block
  that was above \<open>C\<close>. \<open>A\<close> is at the front of the available list, once; \<open>B\<close> and
  \<open>C\<close> are no longer in it; \<open>B\<close> has left the used list. The length of the available
  list is 2 less than it was right after \<open>B\<close> was inserted (that is, 1 less than before
  the call).
\<close>

theorem el_free_coalesces_both:
  assumes tl: "two_lists s as us" and A: "A \<in> set as" and B: "B \<in> set us" and C: "C \<in> set as"
    and inA: "block_in_heap s A" and inB: "block_in_heap s B" and inC: "block_in_heap s C"
    and abA: "el_block_above s A = B" and abB: "el_block_above s B = C"
    and beB: "el_block_below s B = A"
    and stA: "head_state s A = EL_AVAILABLE" and stB: "head_state s B = EL_USED"
    and stC: "head_state s C = EL_AVAILABLE"
  shows "let s' = el_free (B + sizeof_el_blockhead_t) s in
     head_size s' A = head_size s A + head_size s B + head_size s C + 2 * EL_BLOCK_OVERHEAD \<and>
     head_state s' A = EL_AVAILABLE \<and>
     el_get_footer s' A = el_get_footer s C \<and>
     foot_size s' (el_get_footer s' A) = head_size s' A \<and>
     el_block_above s' A = el_block_above s C \<and>
     two_lists s' (A # remove1 A (remove1 C as)) (remove1 B us) \<and>
     length_l (the_list avail s') + 2 =
       length_l (the_list avail
         (el_add_block_front avail B (set_state B EL_AVAILABLE (el_remove_block used B s)))) \<and>
     length_l (the_list avail s') = length_l (the_list avail s) - 1 \<and>
     length_l (the_list used s') = length_l (the_list used s) - 1"
proof -
  let ?szA = "head_size s A" and ?szB = "head_size s B" and ?szC = "head_size s C"
  define s3 where "s3 = el_add_block_front avail B (set_state B EL_AVAILABLE (el_remove_block used B s))"
  define s4 where "s4 = el_merge_block_with_above B s3"
  define s5 where "s5 = el_merge_block_with_above A s4"
  from inA inB inC have nn: "A \<noteq> NULL" "B \<noteq> NULL" "C \<noteq> NULL"
    by (simp_all add: block_in_heap_def)
  note uB = block_in_heap_unat_above [OF inA abA nn(2)]
  note uC = block_in_heap_unat_above [OF inB abB nn(3)]
  from uB(2) uC(2) have ne: "A \<noteq> B" "B \<noteq> C" "A \<noteq> C" by auto
  \<comment> \<open>the freed block joins the available list\<close>
  have 1: "two_lists (el_remove_block used B s) as (remove1 B us)"
    using tl B by (rule two_lists_remove_used)
  from two_lists_distinct [OF tl] have "B \<notin> set (remove1 B us)" by simp
  with two_lists_in_used [OF tl B]
  have "B \<notin> set (nodes avail (set_state B EL_AVAILABLE (el_remove_block used B s)) as)"
    "B \<notin> set (nodes used (set_state B EL_AVAILABLE (el_remove_block used B s)) (remove1 B us))"
    by (simp_all add: nodes_def)
  with 1 have tl3: "two_lists s3 (B # as) (remove1 B us)"
    unfolding s3_def by (simp add: two_lists_add_front_avail)
  have sel3: "head_size s3 = head_size s" "foot_size s3 = foot_size s"
    "head_state s3 = (head_state s)(B := EL_AVAILABLE)"
    "heap_start s3 = heap_start s" "heap_end s3 = heap_end s"
    by (simp_all add: s3_def)
  have len3: "length_l (the_list avail s3) = length_l (the_list avail s) + 1"
    "the_list used s3 = (the_list used s)\<lparr>length_l := length_l (the_list used s) - 1,
        bytes := bytes (the_list used s) - (head_size s B + EL_BLOCK_OVERHEAD)\<rparr>"
    by (simp_all add: s3_def)
  \<comment> \<open>first merge: the freed block absorbs the block above\<close>
  have ab3: "el_block_above s3 B = C" using abB by (simp add: el_block_above_def sel3)
  have m1: "two_lists s4 (B # remove1 C (remove1 B (B # as))) (remove1 B us)"
    "head_size s4 = (head_size s3)(B := head_size s3 B + head_size s3 C + EL_BLOCK_OVERHEAD)"
    "foot_size s4 = (foot_size s3)(el_get_footer s3 C := head_size s3 B + head_size s3 C + EL_BLOCK_OVERHEAD)"
    "head_state s4 = head_state s3" "heap_start s4 = heap_start s3" "heap_end s4 = heap_end s3"
    "length_l (the_list avail s4) = length_l (the_list avail s3) - 1"
    "the_list used s4 = the_list used s3"
    unfolding s4_def
    using el_merge_block_with_above_merges [OF tl3, of B C] C ne nn stC ab3
    by (simp_all add: sel3)
  from m1(1) have tl4: "two_lists s4 (B # remove1 C as) (remove1 B us)" by simp
  have sz4: "head_size s4 = (head_size s)(B := ?szB + ?szC + EL_BLOCK_OVERHEAD)"
    by (simp add: m1(2) sel3)
  have ft4: "foot_size s4 = (foot_size s)(el_get_footer s C := ?szB + ?szC + EL_BLOCK_OVERHEAD)"
    by (simp add: m1(3) sel3 el_get_footer_def)
  \<comment> \<open>the block below is still found through its footer\<close>
  from beB nn(1) have bhs: "B \<noteq> heap_start s"
    by (auto simp: el_block_below_def)
  have "unat (el_get_footer s C) = unat C + 32 + unat ?szC"
    by (rule block_in_heap_unat_footer [OF inC])
  moreover have "unat (B - 8) = unat B - 8"
    using uB(2) by (intro unat_minus_foot) simp
  ultimately have "unat (el_get_footer s C) \<noteq> unat (B - 8)" using uC(2) by simp
  then have fne: "el_get_footer s C \<noteq> B - 8" by auto
  have be4: "el_block_below s4 B = A"
    using beB bhs fne
    by (simp add: el_block_below_def el_get_header_def m1(5) sel3 ft4 el_consts)
  \<comment> \<open>second merge: the block below absorbs the merged block\<close>
  have ab4: "el_block_above s4 A = B"
    using abA ne by (simp add: el_block_above_def sz4 m1(6) sel3)
  have inl: "A \<in> set (B # remove1 C as)" "B \<in> set (B # remove1 C as)"
    using A ne by simp_all
  have st4: "head_state s4 A = EL_AVAILABLE" "head_state s4 B = EL_AVAILABLE"
    using stA ne by (simp_all add: m1(4) sel3)
  have m2: "two_lists s5 (A # remove1 B (remove1 A (B # remove1 C as))) (remove1 B us)"
    "head_size s5 = (head_size s4)(A := head_size s4 A + head_size s4 B + EL_BLOCK_OVERHEAD)"
    "foot_size s5 = (foot_size s4)(el_get_footer s4 B := head_size s4 A + head_size s4 B + EL_BLOCK_OVERHEAD)"
    "head_state s5 = head_state s4" "heap_start s5 = heap_start s4" "heap_end s5 = heap_end s4"
    "length_l (the_list avail s5) = length_l (the_list avail s4) - 1"
    "the_list used s5 = the_list used s4"
    unfolding s5_def
    using el_merge_block_with_above_merges [OF tl4 inl ne(1) nn(1,2) st4 ab4]
    by simp_all
  from m2(1) ne have tl5: "two_lists s5 (A # remove1 A (remove1 C as)) (remove1 B us)" by simp
  have szA5: "head_size s5 A = ?szA + ?szB + ?szC + 2 * EL_BLOCK_OVERHEAD"
    using ne by (simp add: m2(2) sz4)
  have gfB4: "el_get_footer s4 B = el_get_footer s C"
    by (simp add: el_get_footer_def sz4 uC(1) el_consts)
  have gfA5: "el_get_footer s5 A = el_get_footer s C"
    by (simp add: el_get_footer_def szA5 uC(1) uB(1) el_consts)
  have ft5: "foot_size s5 (el_get_footer s5 A) = head_size s5 A"
    using ne by (simp add: gfA5 m2(3) gfB4 szA5 sz4 el_consts)
  have hi5: "A + (head_size s5 A + EL_BLOCK_OVERHEAD) = C + (?szC + EL_BLOCK_OVERHEAD)"
    unfolding szA5 by (simp add: uC(1) uB(1) el_consts)
  have ab5: "el_block_above s5 A = el_block_above s C"
    by (simp only: el_block_above_def Let_def hi5 m2(6) m1(6) sel3)
  have eq: "el_free (B + sizeof_el_blockhead_t) s = s5"
    by (simp add: el_free_eq Let_def s5_def s4_def [symmetric] s3_def [symmetric] be4)
  show ?thesis
    unfolding Let_def eq
    using szA5 gfA5 ft5 ab5 tl5 stA ne
    by (simp add: m2 m1 len3 sel3 s3_def [symmetric])
qed

text \<open>
  The theorem at the state \<open>abc\<close>: blocks of sizes 8, 8 and 3960 merge into the one block
  of size 4056.
\<close>

theorem el_free_coalesces_both_witness:
  "two_lists abc [0x600000000000, 0x600000000060] [0x600000000030] \<and>
   block_in_heap abc 0x600000000000 \<and> block_in_heap abc 0x600000000030 \<and>
   block_in_heap abc 0x600000000060 \<and>
   el_block_above abc 0x600000000000 = 0x600000000030 \<and>
   el_block_above abc 0x600000000030 = 0x600000000060 \<and>
   el_block_below abc 0x600000000030 = 0x600000000000 \<and>
   head_state abc 0x600000000000 = EL_AVAILABLE \<and>
   head_state abc 0x600000000030 = EL_USED \<and>
   head_state abc 0x600000000060 = EL_AVAILABLE \<and>
   head_size (el_free 0x600000000050 abc) 0x600000000000 = 4056 \<and>
   foot_size (el_free 0x600000000050 abc) (el_get_footer (el_free 0x600000000050 abc) 0x600000000000) = 4056 \<and>
   two_lists (el_free 0x600000000050 abc) [0x600000000000] [] \<and>
   length_l (the_list avail (el_free 0x600000000050 abc)) = 1"
  using el_free_coalesces_both
    [of abc "[0x600000000000, 0x600000000060]" "[0x600000000030]"
        "0x600000000000" "0x600000000030" "0x600000000060"]
    abc_facts
  by (auto simp: el_consts Let_def)




text \<open>
  Claim C7: after every sequence of \<open>el_malloc\<close> and \<open>el_free\<close> calls from a
  successful \<open>el_init\<close>, every block of the used list is marked used, every block of
  the available list is marked available, and the counters of each list agree with its
  members.

  The code does not keep this. After \<open>el_init\<close>, \<open>el_malloc(8)\<close> and
  \<open>el_malloc(2^64 - 40)\<close> the first node of the used list is the block at
  0x600000000030, which is marked available; its \<open>next\<close> pointer is the end sentinel of
  the available list, so the used list no longer reaches its own end sentinel, while its
  length field is 2 and its bytes field is 4096.

  With requests that do not wrap the property holds in every reachable state (theorem
  \<open>reach_nowrap_lists\<close>).
\<close>

theorem el_malloc_overflow_breaks_lists:
  "el_init 0x600000000000 4096 12345 0x600000000000 boot = Inr fresh \<and>
   el_malloc 8 fresh = Some (0x600000000020, st1) \<and>
   el_malloc 0xFFFFFFFFFFFFFFD8 st1 = Some (0x600000000050, st2) \<and>
   head_next st2 (beg (the_list used st2)) = 0x600000000030 \<and>
   head_state st2 0x600000000030 = EL_AVAILABLE \<and>
   head_next st2 0x600000000030 = end_p (the_list avail st2) \<and>
   length_l (the_list used st2) = 2 \<and>
   bytes (the_list used st2) = 4096"
proof -
  have "head_next st2 (beg (the_list used st2)) = 0x600000000030"
    "head_state st2 0x600000000030 = EL_AVAILABLE"
    "head_next st2 0x600000000030 = end_p (the_list avail st2)"
    "length_l (the_list used st2) = 2"
    "bytes (the_list used st2) = 4096"
    by (simp_all add: st2_def the_list_def el_consts)
  with step0 step1 step2 show ?thesis by simp
qed

text \<open>
  Claim C8: \<open>el_get_header (el_get_footer head) = head\<close> for a block whose header and
  footer record the same size, and in every reachable state the two sizes of a block
  agree.

  The round trip holds (lemma \<open>el_get_header_el_get_footer\<close>); the second part does not.
  After \<open>el_init\<close>, \<open>el_malloc(8)\<close> and \<open>el_malloc(2^64 - 40)\<close> the used block at
  0x600000000000 has the size 8 in its header and \<open>2^64 - 40\<close> in its footer, and the
  header computed from its footer is 0x600000000030.

  With requests that do not wrap the two sizes agree in every reachable state (theorem
  \<open>reach_nowrap_footers\<close>).
\<close>

theorem el_malloc_overflow_breaks_footer:
  "el_init 0x600000000000 4096 12345 0x600000000000 boot = Inr fresh \<and>
   el_malloc 8 fresh = Some (0x600000000020, st1) \<and>
   el_malloc 0xFFFFFFFFFFFFFFD8 st1 = Some (0x600000000050, st2) \<and>
   head_state st2 0x600000000000 = EL_USED \<and>
   head_size st2 0x600000000000 = 8 \<and>
   foot_size st2 (el_get_footer st2 0x600000000000) = 0xFFFFFFFFFFFFFFD8 \<and>
   el_get_header st2 (el_get_footer st2 0x600000000000) = 0x600000000030"
proof -
  have "head_state st2 0x600000000000 = EL_USED"
    "head_size st2 0x600000000000 = 8"
    "foot_size st2 (el_get_footer st2 0x600000000000) = 0xFFFFFFFFFFFFFFD8"
    "el_get_header st2 (el_get_footer st2 0x600000000000) = 0x600000000030"
    by (simp_all add: st2_def el_get_footer_def el_get_header_def el_consts)
  with step0 step1 step2 show ?thesis by simp
qed



text \<open>
  Claim C10: in every state reachable from a successful \<open>el_init\<close> by \<open>el_malloc\<close> and
  \<open>el_free\<close> calls, no two physically adjacent blocks are both available.

  The code does not keep this. After \<open>el_init\<close>, \<open>p1 = el_malloc(8)\<close>,
  \<open>el_malloc(2^64 - 40)\<close>, \<open>p3 = el_malloc(16)\<close>, \<open>el_free(p1)\<close> and \<open>el_free(p3)\<close>
  the available list holds the block at 0x600000000030 and then the block at
  0x600000000000; both are marked available, and the first is the block directly above
  the second. The second release looks for the block below through the footer that the
  overflowing request overwrote.

  With requests that do not wrap the property holds in every reachable state (theorem
  \<open>reach_nowrap_no_adjacent\<close>).
\<close>

theorem el_free_after_overflow_adjacent_available:
  "el_init 0x600000000000 4096 12345 0x600000000000 boot = Inr fresh \<and>
   el_malloc 8 fresh = Some (0x600000000020, st1) \<and>
   el_malloc 0xFFFFFFFFFFFFFFD8 st1 = Some (0x600000000050, st2) \<and>
   el_malloc 16 st2 = Some (0x600000000050, st3) \<and>
   el_free 0x600000000020 st3 = st4 \<and>
   el_free 0x600000000050 st4 = st5 \<and>
   head_next st5 (beg (the_list avail st5)) = 0x600000000030 \<and>
   head_next st5 0x600000000030 = 0x600000000000 \<and>
   head_next st5 0x600000000000 = end_p (the_list avail st5) \<and>
   head_state st5 0x600000000000 = EL_AVAILABLE \<and>
   head_state st5 0x600000000030 = EL_AVAILABLE \<and>
   el_block_above st5 0x600000000000 = 0x600000000030"
proof -
  have "head_next st5 (beg (the_list avail st5)) = 0x600000000030"
    "head_next st5 0x600000000030 = 0x600000000000"
    "head_next st5 0x600000000000 = end_p (the_list avail st5)"
    "head_state st5 0x600000000000 = EL_AVAILABLE"
    "head_state st5 0x600000000030 = EL_AVAILABLE"
    "el_block_above st5 0x600000000000 = 0x600000000030"
    by (simp_all add: st5_def the_list_def el_block_above_def el_consts)
  with step0 step1 step2 step3 step4 step5 show ?thesis by simp
qed

end
